theory Spec2Isabelle
  imports Main "HOL-Library.Word" "HOL-Library.Stream"
begin

unbundle bit_operations_syntax

section \<open>The AGLA logic analyzer sketch (logic\_analyzer.ino)\<close>

text \<open>
  The sketch runs on AVR microcontrollers only (every other MCU stops at the
  \<^verbatim>\<open>#error "MCU is not supported"\<close> line). On AVR an \<^verbatim>\<open>int\<close> has 16 bits, an
  \<^verbatim>\<open>unsigned long\<close> has 32 bits and a \<^verbatim>\<open>byte\<close> has 8 bits. Signed 16-bit
  values are words read with \<open>sint\<close>; arithmetic on them wraps around, as the AVR
  instructions do.
\<close>

type_synonym byte = "8 word"
type_synonym int16 = "16 word"
type_synonym uint32 = "32 word"

subsection \<open>Build-time constants\<close>

datatype mcu = ATmega1280 | ATmega2560 | ATmega328P

fun MAX_CAPTURE_SIZE :: "mcu \<Rightarrow> nat" where
  "MAX_CAPTURE_SIZE ATmega1280 = 7168"
| "MAX_CAPTURE_SIZE ATmega2560 = 7168"
| "MAX_CAPTURE_SIZE ATmega328P = 1536"

subsection \<open>Global state\<close>

text \<open>
  The global variables of the sketch, together with the three devices it talks to:
  \<open>rx\<close> holds the bytes waiting in the serial receive buffer, \<open>tx\<close> the bytes
  written with \<^verbatim>\<open>Serial.write\<close> so far (oldest first), and \<open>CHANPIN\<close> the values
  the input port shows at the successive \<^verbatim>\<open>in\<close> instructions of the acquisition
  loops. \<open>logicdata\<close> is the array \<^verbatim>\<open>byte logicdata[MAX_CAPTURE_SIZE]\<close>.
\<close>

record machine =
  rx :: "byte list"
  tx :: "byte list"
  CHANPIN :: "byte stream"
  logicdata :: "byte list"
  logicIndex :: int16
  readCount :: int16
  delayCount :: int16
  trigger :: byte
  trigger_values :: byte
  divider :: uint32

text \<open>
  A store through the sample pointer at an address outside \<open>logicdata\<close> overwrites
  whatever lies there (other globals, the stack, the register file); the model stops
  with a fault at the first such access.
\<close>

datatype fault = BufferOverrun

text \<open>The global initialisers: the state before any command is received.\<close>

definition power_up :: "mcu \<Rightarrow> byte stream \<Rightarrow> machine" where
  "power_up m pin =
     \<lparr>rx = [], tx = [], CHANPIN = pin,
      logicdata = replicate (MAX_CAPTURE_SIZE m) 0,
      logicIndex = 0,
      readCount = of_nat (MAX_CAPTURE_SIZE m),
      delayCount = 0,
      trigger = 0,
      trigger_values = 0,
      divider = 0\<rparr>"

subsection \<open>The acquisition loops of acquireSlow (inline assembler)\<close>

text \<open>
  The sample pointer is kept as its 16-bit offset from \<^verbatim>\<open>&logicdata[0]\<close>; the stop
  address in r20:r21 is the base plus \<open>readCount\<close>, so the pointer equals the stop
  address exactly when its offset equals \<open>readCount\<close> as a 16-bit word.

  \<open>TRIGTEST\<close> is the \<^verbatim>\<open>eor\<close>/\<^verbatim>\<open>and\<close>/\<^verbatim>\<open>brne\<close> sequence: it is true when the branch
  back to the trigger loop is taken.
\<close>

definition TRIGTEST :: "byte \<Rightarrow> byte \<Rightarrow> byte \<Rightarrow> bool" where
  "TRIGTEST inp trigval trigmask = ((inp XOR trigval) AND trigmask \<noteq> 0)"

text \<open>\<^verbatim>\<open>st X+\<close> followed by the two compares and the \<^verbatim>\<open>movw\<close> that wraps the pointer.\<close>

definition store_wrap :: "int16 \<Rightarrow> byte \<Rightarrow> int16 \<times> byte list \<Rightarrow> int16 \<times> byte list" where
  "store_wrap rc x pm =
     (case pm of (ptr, mem) \<Rightarrow>
        (if ptr + 1 = rc then 0 else ptr + 1, mem[unat ptr := x]))"

partial_function (option) TRIGLOOP ::
  "nat \<Rightarrow> int16 \<Rightarrow> byte \<Rightarrow> byte \<Rightarrow> byte stream \<times> int16 \<times> byte list
     \<Rightarrow> (fault + byte stream \<times> int16 \<times> byte list) option" where
  "TRIGLOOP cap rc trigval trigmask st =
     (case st of (pin, ptr, mem) \<Rightarrow>
        if cap \<le> unat ptr then Some (Inl BufferOverrun)
        else if TRIGTEST (shd pin) trigval trigmask
          then TRIGLOOP cap rc trigval trigmask (stl pin, store_wrap rc (shd pin) (ptr, mem))
          else Some (Inr (stl pin, store_wrap rc (shd pin) (ptr, mem))))"

function SAMPLOOP ::
  "nat \<Rightarrow> int16 \<Rightarrow> byte stream \<times> int16 \<times> byte list \<Rightarrow> int16
     \<Rightarrow> fault + byte stream \<times> int16 \<times> byte list" where
  "SAMPLOOP cap rc (pin, ptr, mem) dc =
     (if cap \<le> unat ptr then Inl BufferOverrun
      else if dc - 1 \<noteq> 0
        then SAMPLOOP cap rc (stl pin, store_wrap rc (shd pin) (ptr, mem)) (dc - 1)
        else Inr (stl pin, store_wrap rc (shd pin) (ptr, mem)))"
  by pat_completeness auto
termination
proof (relation "measure (\<lambda>(cap, rc, st, dc). unat (dc - 1))")
  show "wf (measure (\<lambda>(cap, rc, st, dc). unat (dc - 1)))"
    by simp
next
  fix cap :: nat and rc :: int16 and pin :: "byte stream" and ptr :: int16
    and mem :: "byte list" and dc :: int16
  assume nz: "dc - 1 \<noteq> 0"
  have "unat (dc - 1) \<noteq> 0"
    using nz by (simp only: unat_eq_0 not_False_eq_True)
  moreover have "unat (dc - 1 - 1) = unat (dc - 1) - 1"
    using nz by (rule unat_minus_one)
  ultimately have "unat (dc - 1 - 1) < unat (dc - 1)"
    by arith
  then show "((cap, rc, (stl pin, store_wrap rc (shd pin) (ptr, mem)), dc - 1),
              (cap, rc, (pin, ptr, mem), dc)) \<in> measure (\<lambda>(cap, rc, st, dc). unat (dc - 1))"
    by simp
qed


text \<open>
  The reversed dump at the end of acquireSlow: \<open>i\<close> is the loop counter, \<open>li\<close> the
  global \<open>logicIndex\<close> (already decremented once before the loop), both signed.
\<close>

function dump_reversed ::
  "nat \<Rightarrow> byte list \<Rightarrow> int16 \<Rightarrow> int16 \<Rightarrow> int16 \<Rightarrow> byte list
     \<Rightarrow> fault + int16 \<times> byte list" where
  "dump_reversed cap mem rc i li out =
     (if sint i < sint rc
      then (if cap \<le> unat (if sint li < 0 then rc - 1 else li) then Inl BufferOverrun
            else dump_reversed cap mem rc (i + 1) ((if sint li < 0 then rc - 1 else li) - 1)
                   (out @ [mem ! unat (if sint li < 0 then rc - 1 else li)]))
      else Inr (li, out))"
  by pat_completeness auto
termination
proof (relation "measure (\<lambda>(cap, mem, rc, i, li, out). nat (sint rc - sint i))")
  show "wf (measure (\<lambda>(cap, mem, rc, i, li, out). nat (sint rc - sint i)))"
    by simp
next
  fix cap :: nat and mem :: "byte list" and rc i li :: int16 and out :: "byte list"
  assume lt: "sint i < sint rc"
  have "sint rc < 2 ^ 15"
    using sint_lt [of rc] by simp
  moreover have "- (2 ^ 15) \<le> sint i"
    using sint_ge [of i] by simp
  ultimately have "sint (i + 1) = sint i + 1"
    using lt by (simp add: sint_word_ariths signed_take_bit_int_eq_self)
  then show "((cap, mem, rc, i + 1, (if sint li < 0 then rc - 1 else li) - 1,
               out @ [mem ! unat (if sint li < 0 then rc - 1 else li)]),
              (cap, mem, rc, i, li, out))
             \<in> measure (\<lambda>(cap, mem, rc, i, li, out). nat (sint rc - sint i))"
    using lt by simp
qed

text \<open>
  acquireSlow. The timer registers set from \<open>divider\<close> fix the time between two
  samples and nothing else; the assembler loops decrement a register copy of
  \<open>delayCount\<close>, not the global.
\<close>

definition acquireSlow :: "mcu \<Rightarrow> machine \<Rightarrow> (fault + machine) option" where
  "acquireSlow m s =
     (let s1 = s\<lparr>divider := (if divider s < 99 then 99 else divider s), logicIndex := 0\<rparr> in
      case TRIGLOOP (MAX_CAPTURE_SIZE m) (readCount s1) (trigger_values s1) (trigger s1)
             (CHANPIN s1, 0, logicdata s1) of
        None \<Rightarrow> None
      | Some (Inl e) \<Rightarrow> Some (Inl e)
      | Some (Inr st) \<Rightarrow>
          (case SAMPLOOP (MAX_CAPTURE_SIZE m) (readCount s1) st (delayCount s1) of
             Inl e \<Rightarrow> Some (Inl e)
           | Inr (pin, ptr, mem) \<Rightarrow>
               (case dump_reversed (MAX_CAPTURE_SIZE m) mem (readCount s1) 0 (ptr - 1) [] of
                  Inl e \<Rightarrow> Some (Inl e)
                | Inr (li, out) \<Rightarrow>
                    Some (Inr (s1\<lparr>CHANPIN := pin, logicdata := mem, logicIndex := li,
                                  tx := tx s1 @ out\<rparr>)))))"

subsection \<open>acquire2MHz\<close>

text \<open>
  One pass of the trigger loop: \<^verbatim>\<open>in\<close>, \<^verbatim>\<open>st X\<close> (no increment), then the trigger
  test. The second component tells whether \<^verbatim>\<open>brne TRIGLOOP2\<close> is taken.
\<close>

definition TRIGLOOP2_body ::
  "byte \<Rightarrow> byte \<Rightarrow> byte stream \<times> byte list \<Rightarrow> (byte stream \<times> byte list) \<times> bool" where
  "TRIGLOOP2_body trigval trigmask st =
     (case st of (pin, mem) \<Rightarrow>
        ((stl pin, mem[0 := shd pin]), TRIGTEST (shd pin) trigval trigmask))"

partial_function (option) TRIGLOOP2 ::
  "byte \<Rightarrow> byte \<Rightarrow> byte stream \<times> byte list \<Rightarrow> (byte stream \<times> byte list) option" where
  "TRIGLOOP2 trigval trigmask st =
     (case TRIGLOOP2_body trigval trigmask st of
        (st', again) \<Rightarrow> if again then TRIGLOOP2 trigval trigmask st' else Some st')"

function SAMPLOOP2 ::
  "nat \<Rightarrow> byte stream \<times> int16 \<times> byte list \<Rightarrow> int16
     \<Rightarrow> fault + byte stream \<times> int16 \<times> byte list" where
  "SAMPLOOP2 cap (pin, ptr, mem) dc =
     (if cap \<le> unat ptr then Inl BufferOverrun
      else if dc - 1 \<noteq> 0
        then SAMPLOOP2 cap (stl pin, ptr + 1, mem[unat ptr := shd pin]) (dc - 1)
        else Inr (stl pin, ptr + 1, mem[unat ptr := shd pin]))"
  by pat_completeness auto
termination
proof (relation "measure (\<lambda>(cap, st, dc). unat (dc - 1))")
  show "wf (measure (\<lambda>(cap, st, dc). unat (dc - 1)))"
    by simp
next
  fix cap :: nat and pin :: "byte stream" and ptr :: int16
    and mem :: "byte list" and dc :: int16
  assume nz: "dc - 1 \<noteq> 0"
  have "unat (dc - 1) \<noteq> 0"
    using nz by (simp only: unat_eq_0 not_False_eq_True)
  moreover have "unat (dc - 1 - 1) = unat (dc - 1) - 1"
    using nz by (rule unat_minus_one)
  ultimately have "unat (dc - 1 - 1) < unat (dc - 1)"
    by arith
  then show "((cap, (stl pin, ptr + 1, mem[unat ptr := shd pin]), dc - 1),
              (cap, (pin, ptr, mem), dc)) \<in> measure (\<lambda>(cap, st, dc). unat (dc - 1))"
    by simp
qed

text \<open>The reversed dump of acquire2MHz: \<^verbatim>\<open>for (i = readCount-1; i >= 0; i--)\<close>.\<close>

function dump2MHz :: "nat \<Rightarrow> byte list \<Rightarrow> int16 \<Rightarrow> byte list \<Rightarrow> fault + byte list" where
  "dump2MHz cap mem i out =
     (if 0 \<le> sint i
      then (if cap \<le> unat i then Inl BufferOverrun
            else dump2MHz cap mem (i - 1) (out @ [mem ! unat i]))
      else Inr out)"
  by pat_completeness auto
termination
proof (relation "measure (\<lambda>(cap, mem, i, out). nat (sint i + 1))")
  show "wf (measure (\<lambda>(cap, mem, i, out). nat (sint i + 1)))"
    by simp
next
  fix cap :: nat and mem :: "byte list" and i :: int16 and out :: "byte list"
  assume ge: "0 \<le> sint i"
  have "sint i < 2 ^ 15"
    using sint_lt [of i] by simp
  then have "sint (i - 1) = sint i - 1"
    using ge by (simp add: sint_word_ariths signed_take_bit_int_eq_self)
  then show "((cap, mem, i - 1, out @ [mem ! unat i]), (cap, mem, i, out))
             \<in> measure (\<lambda>(cap, mem, i, out). nat (sint i + 1))"
    using ge by simp
qed

definition acquire2MHz :: "mcu \<Rightarrow> machine \<Rightarrow> (fault + machine) option" where
  "acquire2MHz m s =
     (let s1 = s\<lparr>delayCount := readCount s - 1\<rparr> in
      case TRIGLOOP2 (trigger_values s1) (trigger s1) (CHANPIN s1, logicdata s1) of
        None \<Rightarrow> None
      | Some (pin, mem) \<Rightarrow>
          (case SAMPLOOP2 (MAX_CAPTURE_SIZE m) (pin, 1, mem) (delayCount s1) of
             Inl e \<Rightarrow> Some (Inl e)
           | Inr (pin', ptr, mem') \<Rightarrow>
               (case dump2MHz (MAX_CAPTURE_SIZE m) mem' (readCount s1 - 1) [] of
                  Inl e \<Rightarrow> Some (Inl e)
                | Inr out \<Rightarrow>
                    Some (Inr (s1\<lparr>CHANPIN := pin', logicdata := mem',
                                  tx := tx s1 @ out\<rparr>)))))"

subsection \<open>acquire5MHz\<close>

text \<open>
  Modelled from the spec: \<^verbatim>\<open>acquire5MHz\<close> is called by \<^verbatim>\<open>acquire\<close> for divider 19,
  but its definition is not among the sources. The specification describes it as having
  the same shape as the 2 MHz routine: "trigger-wait without storage, then the matching
  sample stored at position 0, then readCount - 1 further linear samples", the samples
  being streamed afterwards in reverse temporal order, and the session state being only
  read.
\<close>

partial_function (option) trigger_wait5 ::
  "byte \<Rightarrow> byte \<Rightarrow> byte stream \<Rightarrow> byte stream option" where
  "trigger_wait5 trigval trigmask pin =
     (if (shd pin XOR trigval) AND trigmask \<noteq> 0
      then trigger_wait5 trigval trigmask (stl pin) else Some pin)"

text \<open>
  Modelled from the spec: the body of \<^verbatim>\<open>acquire5MHz\<close>, absent from the sources. After
  the wait the matching sample is at position 0 and \<open>readCount - 1\<close> further samples
  follow it; the first \<open>readCount\<close> cells are then sent, the most recent first.
\<close>

definition acquire5MHz :: "mcu \<Rightarrow> machine \<Rightarrow> (fault + machine) option" where
  "acquire5MHz m s =
     (case trigger_wait5 (trigger_values s) (trigger s) (CHANPIN s) of
        None \<Rightarrow> None
      | Some pin \<Rightarrow>
          (let further = nat (sint (readCount s) - 1);
               mem = (logicdata s)[0 := shd pin];
               mem' = take 1 mem @ stake further (stl pin) @ drop (1 + further) mem
           in Some (Inr (s\<lparr>CHANPIN := sdrop further (stl pin), logicdata := mem',
                           tx := tx s @ rev (take (nat (sint (readCount s))) mem')\<rparr>))))"

subsection \<open>acquire\<close>

definition acquire :: "mcu \<Rightarrow> machine \<Rightarrow> (fault + machine) option" where
  "acquire m s =
     (if divider s = 19 then acquire5MHz m s
      else if divider s = 49 then acquire2MHz m s
      else acquireSlow m s)"

subsection \<open>The command dispatcher\<close>

text \<open>
  \<^verbatim>\<open>Serial.read()\<close> returns the next byte of the receive buffer as an \<^verbatim>\<open>int\<close>, and -1
  when the buffer is empty. \<open>getCmd\<close> stores four such results into the bytes
  \<^verbatim>\<open>cmdBytes[0..3]\<close>, which every caller reads right afterwards.
\<close>

definition Serial_read :: "machine \<Rightarrow> int16 \<times> machine" where
  "Serial_read s = (case rx s of [] \<Rightarrow> (- 1, s) | b # r \<Rightarrow> (ucast b, s\<lparr>rx := r\<rparr>))"

definition getCmd :: "machine \<Rightarrow> (byte \<times> byte \<times> byte \<times> byte) \<times> machine" where
  "getCmd s =
     (case Serial_read s of (c0, s0) \<Rightarrow>
      case Serial_read s0 of (c1, s1) \<Rightarrow>
      case Serial_read s1 of (c2, s2) \<Rightarrow>
      case Serial_read s2 of (c3, s3) \<Rightarrow>
        ((ucast c0, ucast c1, ucast c2, ucast c3), s3))"

text \<open>
  \<^verbatim>\<open>4 * (((hi << 8) | lo) + 1)\<close> in 16-bit \<^verbatim>\<open>int\<close> arithmetic, followed by the
  signed comparison with \<^verbatim>\<open>MAX_CAPTURE_SIZE\<close>.
\<close>

definition decode_count :: "mcu \<Rightarrow> byte \<Rightarrow> byte \<Rightarrow> int16" where
  "decode_count m lo hi =
     (let v = 4 * ((push_bit 8 (ucast hi) OR ucast lo) + 1) :: int16 in
      if int (MAX_CAPTURE_SIZE m) < sint v then of_nat (MAX_CAPTURE_SIZE m) else v)"

definition decode_divider :: "byte \<Rightarrow> byte \<Rightarrow> byte \<Rightarrow> uint32" where
  "decode_divider c0 c1 c2 = push_bit 8 (push_bit 8 (ucast c2) + ucast c1) + ucast c0"

definition send_metadata :: "mcu \<Rightarrow> machine \<Rightarrow> machine" where
  "send_metadata m s =
     s\<lparr>tx := tx s @
        [0x01, 0x41, 0x47, 0x4C, 0x41, 0x72, 0x65, 0x76, 0x56, 0x31, 0x00,
         0x02, 0x30, 0x2E, 0x32, 0x32, 0x00,
         0x21, 0x00, 0x00, (if m = ATmega328P then 0x06 else 0x1C), 0x00,
         0x23, 0x00, 0x4C, 0x4B, 0x40,
         0x40, (if m = ATmega328P then 0x06 else 0x08),
         0x41, 0x02,
         0x00]\<rparr>"

text \<open>The opcodes whose payload is read by \<open>getCmd\<close> and then ignored.\<close>

definition ignored_opcodes :: "byte list" where
  "ignored_opcodes = [0xC2, 0xC4, 0xC8, 0xCC, 0xC5, 0xC9, 0xCD, 0xC6, 0xCA, 0xCE]"

text \<open>One call of \<^verbatim>\<open>loop()\<close>.\<close>

definition loop :: "mcu \<Rightarrow> machine \<Rightarrow> (fault + machine) option" where
  "loop m s =
     (case rx s of
        [] \<Rightarrow> Some (Inr s)
      | cmdByte # rest \<Rightarrow>
          (let s0 = s\<lparr>rx := rest\<rparr> in
           if cmdByte = 0x00 then Some (Inr s0)
           else if cmdByte = 0x02 then Some (Inr (s0\<lparr>tx := tx s0 @ [0x31, 0x41, 0x4C, 0x53]\<rparr>))
           else if cmdByte = 0x01
             then acquire m (s0\<lparr>logicdata := replicate (MAX_CAPTURE_SIZE m) 0\<rparr>)
           else if cmdByte = 0xC0
             then (case getCmd s0 of ((c0, c1, c2, c3), s1) \<Rightarrow> Some (Inr (s1\<lparr>trigger := c0\<rparr>)))
           else if cmdByte = 0xC1
             then (case getCmd s0 of ((c0, c1, c2, c3), s1) \<Rightarrow>
                     Some (Inr (s1\<lparr>trigger_values := c0\<rparr>)))
           else if cmdByte \<in> set ignored_opcodes
             then Some (Inr (snd (getCmd s0)))
           else if cmdByte = 0x80
             then (case getCmd s0 of ((c0, c1, c2, c3), s1) \<Rightarrow>
                     Some (Inr (s1\<lparr>divider := decode_divider c0 c1 c2\<rparr>)))
           else if cmdByte = 0x81
             then (case getCmd s0 of ((c0, c1, c2, c3), s1) \<Rightarrow>
                     Some (Inr (s1\<lparr>readCount := decode_count m c0 c1,
                                   delayCount := decode_count m c2 c3\<rparr>)))
           else if cmdByte = 0x82 then Some (Inr (snd (getCmd s0)))
           else if cmdByte = 0x04 then Some (Inr (send_metadata m s0))
           else Some (Inr s0)))"


text \<open>The loops are unfolded one pass at a time, never by the simplifier on its own.\<close>

declare SAMPLOOP.simps [simp del]
declare SAMPLOOP2.simps [simp del]
declare dump_reversed.simps [simp del]
declare dump2MHz.simps [simp del]

text \<open>The Arduino runtime calls \<^verbatim>\<open>loop()\<close> again and again; \<open>loops m n\<close> is \<open>n\<close> calls.\<close>

primrec loops :: "mcu \<Rightarrow> nat \<Rightarrow> machine \<Rightarrow> (fault + machine) option" where
  "loops m 0 s = Some (Inr s)"
| "loops m (Suc n) s =
     (case loop m s of
        None \<Rightarrow> None
      | Some (Inl e) \<Rightarrow> Some (Inl e)
      | Some (Inr s') \<Rightarrow> loops m n s')"

subsection \<open>Notions used to state the properties\<close>

text \<open>
  The number of passes of a loop that ends with \<^verbatim>\<open>sbiw r, 1; brne\<close> when the register
  pair holds \<open>dc\<close> on entry: the body runs once before the first decrement, and a
  register that starts at 0 wraps to 0xFFFF.
\<close>

definition sbiw_count :: "int16 \<Rightarrow> nat" where
  "sbiw_count dc = (if dc = 0 then 65536 else unat dc)"

text \<open>
  Writing a list of samples circularly into the first \<open>n\<close> cells of a buffer, starting
  at cell \<open>p\<close>: the result is the next cell and the buffer.
\<close>

fun circ_store :: "nat \<Rightarrow> nat \<times> byte list \<Rightarrow> byte list \<Rightarrow> nat \<times> byte list" where
  "circ_store n (p, mem) [] = (p, mem)"
| "circ_store n (p, mem) (x # xs) = circ_store n (Suc p mod n, mem[p := x]) xs"

text \<open>The opcodes that are followed by four payload bytes.\<close>

definition five_byte_opcodes :: "byte list" where
  "five_byte_opcodes = [0xC0, 0xC1] @ ignored_opcodes @ [0x80, 0x81, 0x82]"

text \<open>Writing a list of samples into consecutive cells, starting at cell \<open>p\<close>.\<close>

fun lin_store :: "nat \<Rightarrow> byte list \<Rightarrow> byte list \<Rightarrow> byte list" where
  "lin_store p mem [] = mem"
| "lin_store p mem (x # xs) = lin_store (Suc p) (mem[p := x]) xs"


section \<open>Properties\<close>

subsection \<open>Decoding the commands\<close>

lemma ucast_byte: "ucast (ucast a :: int16) = (a :: byte)"
  by (rule bit_word_eqI) (auto simp: bit_simps)

lemma getCmd4: "getCmd (s\<lparr>rx := a # b # c # d # r\<rparr>) = ((a, b, c, d), s\<lparr>rx := r\<rparr>)"
  by (simp add: getCmd_def Serial_read_def ucast_byte)

lemma loop_read_delay_count:
  "loop m (s\<lparr>rx := 0x81 # a # b # c # d # r\<rparr>) =
     Some (Inr (s\<lparr>rx := r, readCount := decode_count m a b,
                   delayCount := decode_count m c d\<rparr>))"
  by (simp add: loop_def ignored_opcodes_def getCmd4)

lemma sint_1536: "sint (1536 :: int16) = 1536"
  by simp

lemma sint_7168: "sint (7168 :: int16) = 7168"
  by simp

lemma clamp_le:
  "c = 1536 \<or> c = 7168 \<Longrightarrow> sint (if int c < sint v then of_nat c else v :: int16) \<le> int c"
  by (cases "int c < sint v") (auto simp: sint_1536 sint_7168)

lemma decode_count_le: "sint (decode_count m lo hi) \<le> int (MAX_CAPTURE_SIZE m)"
  unfolding decode_count_def Let_def
  by (rule clamp_le) (cases m, simp_all)

lemma signed_take_bit_15: "signed_take_bit 15 k = (k + 32768) mod 65536 - 32768" for k :: int
  by (simp add: signed_take_bit_eq_take_bit_shift take_bit_eq_mod)

lemma dvd4_sint: "4 dvd sint (4 * w :: int16)"
proof -
  have "sint (4 * w) = signed_take_bit 15 (sint (4 :: int16) * sint w)"
    by (simp only: sint_word_ariths) simp
  then have "sint (4 * w) = (4 * sint w + 32768) mod 65536 - 32768"
    by (simp only: signed_take_bit_15) simp
  moreover have "4 dvd ((4 * x + 32768) mod 65536 - 32768)" for x :: int
  proof -
    have "(4 * x + 32768) mod 65536 = 4 * ((x + 8192) mod 16384)"
      using mult_mod_right[of 4 "x + 8192" 16384] by simp
    then show ?thesis by simp
  qed
  ultimately show ?thesis by simp
qed

lemma clamp_dvd:
  "c = 1536 \<or> c = 7168 \<Longrightarrow>
     4 dvd sint (if int c < sint (4 * w) then of_nat c else 4 * w :: int16)"
  using dvd4_sint[of w] by (cases "int c < sint (4 * w)") auto

lemma decode_count_dvd: "4 dvd sint (decode_count m lo hi)"
  unfolding decode_count_def Let_def
  by (rule clamp_dvd) (cases m, simp_all)

lemma decode_count_0x2000: "decode_count m 0x00 0x20 = 0x8004"
  by (cases m) (simp_all add: decode_count_def)

text \<open>
  C1. Every decoded count is a multiple of 4 and at most the buffer capacity, but it
  need not be non-negative: the set-read-delay-count command with raw read field 0x2000
  (payload bytes 0x00, 0x20) leaves \<open>readCount = -32764\<close>, because \<open>4 * 0x2001\<close>
  does not fit a 16-bit \<^verbatim>\<open>int\<close> and the clamp compares signed values.
\<close>

theorem read_count_negative:
  "(\<forall>lo hi. 4 dvd sint (decode_count m lo hi)
       \<and> sint (decode_count m lo hi) \<le> int (MAX_CAPTURE_SIZE m))
   \<and> map_option (map_sum id (\<lambda>s'. sint (readCount s')))
        (loop m (s\<lparr>rx := [0x81, 0x00, 0x20, 0x00, 0x00]\<rparr>)) = Some (Inr (- 32764))"
  by (simp add: loop_read_delay_count decode_count_0x2000 decode_count_dvd decode_count_le)

subsection \<open>The dispatcher and the byte stream\<close>

lemma loops_idle: "rx s = [] \<Longrightarrow> loops m n s = Some (Inr s)"
  by (induction n) (simp_all add: loop_def)

lemma loop_five_byte:
  assumes "c \<in> set five_byte_opcodes"
  shows "map_option (map_sum id (\<lambda>s'. (rx s', tx s')))
           (loop m (s\<lparr>rx := c # p0 # p1 # p2 # p3 # rest\<rparr>)) = Some (Inr (rest, tx s))"
  using assms unfolding five_byte_opcodes_def ignored_opcodes_def
  by (auto simp: loop_def ignored_opcodes_def getCmd4)

lemma loop_query:
  "loop m (s\<lparr>rx := 0x02 # r\<rparr>) =
     Some (Inr (s\<lparr>rx := r, tx := tx s @ [0x31, 0x41, 0x4C, 0x53]\<rparr>))"
  by (simp add: loop_def)

lemma loop_mask2:
  "loop m (s\<lparr>rx := 0xC4 # a # b # c # d # r\<rparr>) = Some (Inr (s\<lparr>rx := r\<rparr>))"
  by (simp add: loop_def ignored_opcodes_def getCmd4)

text \<open>
  C8. After the opcode of any 5-byte command (the acted-on ones and the ignored ones
  alike) one call of \<open>loop\<close> has removed exactly the four payload bytes from the
  receive buffer and has written nothing. On the input 0xC4, 0, 0, 0, 0, 0x02 the
  sketch writes the four bytes "1ALS" and nothing else, however often \<open>loop\<close> is
  called afterwards.
\<close>

theorem payload_consumed:
  "(\<forall>c \<in> set five_byte_opcodes.
      map_option (map_sum id (\<lambda>s'. (rx s', tx s')))
        (loop m (s\<lparr>rx := c # p0 # p1 # p2 # p3 # rest\<rparr>)) = Some (Inr (rest, tx s)))
   \<and> map_option (map_sum id (\<lambda>s'. (rx s', tx s')))
        (loops m (Suc (Suc n)) (s\<lparr>rx := [0xC4, 0, 0, 0, 0, 0x02]\<rparr>))
       = Some (Inr ([], tx s @ [0x31, 0x41, 0x4C, 0x53]))"
proof -
  have "loops m (Suc (Suc n)) (s\<lparr>rx := [0xC4, 0, 0, 0, 0, 0x02]\<rparr>)
      = Some (Inr (s\<lparr>rx := [], tx := tx s @ [0x31, 0x41, 0x4C, 0x53]\<rparr>))"
    using loop_query[where m=m and s=s and r="[]"]
      loop_mask2[where m=m and s=s and a=0 and b=0 and c=0 and d=0 and r="[0x02]"]
    by (simp add: loops_idle)
  then show ?thesis using loop_five_byte by simp
qed

theorem payload_consumed_witness:
  "0xC4 \<in> set five_byte_opcodes
   \<and> map_option (map_sum id (\<lambda>s'. (rx s', tx s')))
        (loop ATmega328P (power_up ATmega328P (sconst 0)\<lparr>rx := [0xC4, 1, 2, 3, 4, 0x02]\<rparr>))
       = Some (Inr ([0x02], []))"
  using payload_consumed[where m=ATmega328P and s="power_up ATmega328P (sconst 0)"
      and ?p0.0=1 and ?p1.0=2 and ?p2.0=3 and ?p3.0=4 and rest="[0x02]"]
  by (simp add: five_byte_opcodes_def ignored_opcodes_def power_up_def)

subsection \<open>The sampling loops of acquireSlow\<close>

lemma unat_of_nat16: "p < 65536 \<Longrightarrow> unat (of_nat p :: int16) = p"
  by (simp add: unat_of_nat)

lemma sbiw_count_pos: "0 < sbiw_count dc"
  by (simp add: sbiw_count_def unat_gt_0)

lemma sbiw_count_step:
  assumes nz: "dc - 1 \<noteq> 0"
  shows "sbiw_count (dc - 1) = sbiw_count dc - 1"
proof (cases "dc = 0")
  case True
  have "unat (- 1 :: int16) = 65535" by (simp add: unsigned_minus_1_eq_mask mask_eq_exp_minus_1)
  then show ?thesis using True by (simp add: sbiw_count_def)
next
  case False
  have "unat (dc - 1) = unat dc - 1" using False by (rule unat_minus_one)
  moreover have "dc - 1 \<noteq> 0 \<Longrightarrow> sbiw_count (dc - 1) = unat (dc - 1)"
    unfolding sbiw_count_def by (simp only: if_False)
  ultimately show ?thesis using False nz by (simp add: sbiw_count_def)
qed

lemma sbiw_count_last: "dc - 1 = 0 \<Longrightarrow> sbiw_count dc = 1"
  by (simp add: sbiw_count_def)

lemma store_wrap_nat:
  assumes "unat rc = n" "p < n"
  shows "store_wrap rc x (of_nat p, mem) = (of_nat (Suc p mod n), mem[p := x])"
proof -
  have n: "n < 65536" using assms(1) unsigned_less[of rc, where 'a=nat] by simp
  have up: "unat (of_nat p :: int16) = p"
    using assms(2) n by (simp add: unat_of_nat16)
  have rc: "rc = of_nat n" using assms(1)[symmetric] by simp
  show ?thesis
  proof (cases "Suc p = n")
    case True
    have "(of_nat p + 1 :: int16) = of_nat (Suc p)" by simp
    then have "(of_nat p + 1 :: int16) = rc" using True rc by simp
    then show ?thesis using up True by (simp add: store_wrap_def)
  next
    case False
    then have lt: "Suc p < n" using assms(2) by simp
    have "(of_nat p + 1 :: int16) \<noteq> rc"
    proof
      assume eq: "(of_nat p + 1 :: int16) = rc"
      have "(of_nat (Suc p) :: int16) = of_nat p + 1" by simp
      then have "unat (of_nat (Suc p) :: int16) = n" using assms(1) eq by (simp only:)
      moreover have "unat (of_nat (Suc p) :: int16) = Suc p"
        using lt n by (simp add: unat_of_nat16 del: of_nat_Suc)
      ultimately show False using False by simp
    qed
    then show ?thesis using up lt by (simp add: store_wrap_def)
  qed
qed

lemma SAMPLOOP_circ:
  assumes rc: "unat rc = n" and cap: "n \<le> cap"
  shows "sbiw_count dc = k \<Longrightarrow> p < n \<Longrightarrow>
    SAMPLOOP cap rc (pin, of_nat p, mem) dc =
      Inr (sdrop k pin, of_nat (fst (circ_store n (p, mem) (stake k pin))),
           snd (circ_store n (p, mem) (stake k pin)))"
proof (induction k arbitrary: dc pin p mem)
  case 0
  then show ?case using sbiw_count_pos[of dc] by simp
next
  case (Suc k)
  have n: "n < 65536" using rc unsigned_less[of rc, where 'a=nat] by simp
  have up: "unat (of_nat p :: int16) = p" using Suc.prems(2) n by (simp add: unat_of_nat16)
  have nov: "\<not> cap \<le> unat (of_nat p :: int16)" using up Suc.prems(2) cap by simp
  have sw: "store_wrap rc (shd pin) (of_nat p, mem) = (of_nat (Suc p mod n), mem[p := shd pin])"
    using rc Suc.prems(2) by (rule store_wrap_nat)
  show ?case
  proof (cases "dc - 1 = 0")
    case True
    then have "k = 0" using Suc.prems(1) sbiw_count_last[of dc] by simp
    then show ?thesis using True nov sw by (simp add: SAMPLOOP.simps)
  next
    case False
    then have "sbiw_count (dc - 1) = k" using Suc.prems(1) sbiw_count_step[of dc] by simp
    moreover have "Suc p mod n < n" using Suc.prems(2) by simp
    ultimately have "SAMPLOOP cap rc (stl pin, of_nat (Suc p mod n), mem[p := shd pin]) (dc - 1) =
       Inr (sdrop k (stl pin),
            of_nat (fst (circ_store n (Suc p mod n, mem[p := shd pin]) (stake k (stl pin)))),
            snd (circ_store n (Suc p mod n, mem[p := shd pin]) (stake k (stl pin))))"
      by (rule Suc.IH)
    then show ?thesis using False nov sw by (simp add: SAMPLOOP.simps)
  qed
qed

lemma sdrop_sconst: "sdrop k (sconst c) = sconst c"
  by (induction k) simp_all

lemma TRIGLOOP_returns:
  assumes "TRIGLOOP cap rc tv tm st = Some y"
  shows "\<forall>r. y = Inr r \<longrightarrow> (\<exists>k. fst r = sdrop (Suc k) (fst st) \<and> \<not> TRIGTEST (fst st !! k) tv tm)"
proof (rule TRIGLOOP.raw_induct[where P = "\<lambda>cap rc tv tm st y.
    \<forall>r. y = Inr r \<longrightarrow> (\<exists>k. fst r = sdrop (Suc k) (fst st) \<and> \<not> TRIGTEST (fst st !! k) tv tm)", OF _ assms])
  fix f :: "nat \<Rightarrow> int16 \<Rightarrow> byte \<Rightarrow> byte \<Rightarrow> byte stream \<times> int16 \<times> byte list
     \<Rightarrow> (fault + byte stream \<times> int16 \<times> byte list) option"
  fix cap rc tv tm st y
  assume IH: "\<And>cap rc tv tm st y. f cap rc tv tm st = Some y \<Longrightarrow>
    \<forall>r. y = Inr r \<longrightarrow> (\<exists>k. fst r = sdrop (Suc k) (fst st) \<and> \<not> TRIGTEST (fst st !! k) tv tm)"
  assume body: "(case st of (pin, ptr, mem) \<Rightarrow>
        if cap \<le> unat ptr then Some (Inl BufferOverrun)
        else if TRIGTEST (shd pin) tv tm
          then f cap rc tv tm (stl pin, store_wrap rc (shd pin) (ptr, mem))
          else Some (Inr (stl pin, store_wrap rc (shd pin) (ptr, mem)))) = Some y"
  obtain pin ptr mem where st: "st = (pin, ptr, mem)" by (cases st) auto
  show "\<forall>r. y = Inr r \<longrightarrow> (\<exists>k. fst r = sdrop (Suc k) (fst st) \<and> \<not> TRIGTEST (fst st !! k) tv tm)"
  proof (intro allI impI)
    fix r assume y: "y = Inr r"
    have nov: "\<not> cap \<le> unat ptr" using body st y by (auto split: if_splits)
    show "\<exists>k. fst r = sdrop (Suc k) (fst st) \<and> \<not> TRIGTEST (fst st !! k) tv tm"
    proof (cases "TRIGTEST (shd pin) tv tm")
      case True
      then have "f cap rc tv tm (stl pin, store_wrap rc (shd pin) (ptr, mem)) = Some y"
        using body st nov by simp
      from IH[OF this] y obtain k where
        "fst r = sdrop (Suc k) (stl pin)" "\<not> TRIGTEST (stl pin !! k) tv tm" by auto
      then have "fst r = sdrop (Suc (Suc k)) (fst st) \<and> \<not> TRIGTEST (fst st !! Suc k) tv tm"
        using st by simp
      then show ?thesis by blast
    next
      case False
      then have "r = (stl pin, store_wrap rc (shd pin) (ptr, mem))"
        using body st nov y by simp
      then have "fst r = sdrop (Suc 0) (fst st) \<and> \<not> TRIGTEST (fst st !! 0) tv tm"
        using st False by simp
      then show ?thesis by blast
    qed
  qed
qed

lemma TRIGLOOP_first:
  assumes rc: "unat rc = n" and cap: "n \<le> cap"
  shows "\<not> TRIGTEST (pin !! k) tv tm \<Longrightarrow> \<forall>j<k. TRIGTEST (pin !! j) tv tm \<Longrightarrow> p < n \<Longrightarrow>
    TRIGLOOP cap rc tv tm (pin, of_nat p, mem) =
      Some (Inr (sdrop (Suc k) pin, of_nat (fst (circ_store n (p, mem) (stake (Suc k) pin))),
           snd (circ_store n (p, mem) (stake (Suc k) pin))))"
proof (induction k arbitrary: pin p mem)
  case 0
  have n: "n < 65536" using rc unsigned_less[of rc, where 'a=nat] by simp
  have up: "unat (of_nat p :: int16) = p" using 0(3) n by (simp add: unat_of_nat16)
  have nov: "\<not> cap \<le> unat (of_nat p :: int16)" using up 0(3) cap by simp
  have sw: "store_wrap rc (shd pin) (of_nat p, mem) = (of_nat (Suc p mod n), mem[p := shd pin])"
    using rc 0(3) by (rule store_wrap_nat)
  show ?case using 0(1) nov sw by (subst TRIGLOOP.simps) simp
next
  case (Suc k)
  have n: "n < 65536" using rc unsigned_less[of rc, where 'a=nat] by simp
  have up: "unat (of_nat p :: int16) = p" using Suc.prems(3) n by (simp add: unat_of_nat16)
  have nov: "\<not> cap \<le> unat (of_nat p :: int16)" using up Suc.prems(3) cap by simp
  have sw: "store_wrap rc (shd pin) (of_nat p, mem) = (of_nat (Suc p mod n), mem[p := shd pin])"
    using rc Suc.prems(3) by (rule store_wrap_nat)
  have t0: "TRIGTEST (shd pin) tv tm" using Suc.prems(2) by (metis snth.simps(1) zero_less_Suc)
  have a: "\<not> TRIGTEST (stl pin !! k) tv tm" using Suc.prems(1) by simp
  have b: "\<forall>j<k. TRIGTEST (stl pin !! j) tv tm" using Suc.prems(2) by auto
  have c: "Suc p mod n < n" using Suc.prems(3) by simp
  note IH = Suc.IH[OF a b c, of "mem[p := shd pin]"]
  show ?case using t0 nov sw IH by (subst TRIGLOOP.simps) simp
qed

subsection \<open>The reversed dump of acquireSlow\<close>

lemma sint_of_int16: "- 32768 \<le> k \<Longrightarrow> k < 32768 \<Longrightarrow> sint (of_int k :: int16) = k"
  by (simp add: signed_of_int signed_take_bit_int_eq_self)

lemma sint_of_nat16: "j < 32768 \<Longrightarrow> sint (of_nat j :: int16) = int j"
  using sint_of_int16[of "int j"] by simp

lemma sint_of_nat16_pred: "L < 32768 \<Longrightarrow> sint (of_nat L - 1 :: int16) = int L - 1"
  using sint_of_int16[of "int L - 1"] by simp


lemma of_nat_pred16: "0 < L \<Longrightarrow> (of_nat L - 1 :: int16) = of_nat (L - 1)"
  by (cases L) simp_all

lemma dump_reversed_step:
  assumes "j < n" "n \<le> cap" "cap < 32768" "0 < L" "L \<le> n"
  shows "dump_reversed cap mem (of_nat n) (of_nat j) (of_nat L - 1) out =
         dump_reversed cap mem (of_nat n) (of_nat (Suc j)) (of_nat (L - 1) - 1) (out @ [mem ! (L - 1)])"
proof -
  have i: "sint (of_nat j :: int16) < sint (of_nat n :: int16)"
    using assms by (simp add: sint_of_nat16)
  have li: "\<not> sint (of_nat L - 1 :: int16) < 0"
    using assms by (simp add: sint_of_nat16_pred)
  have e: "(of_nat L - 1 :: int16) = of_nat (L - 1)" using assms(4) by (rule of_nat_pred16)
  have "L - 1 < 65536" using assms by simp
  then have "unat (of_nat (L - 1) :: int16) = L - 1" by (rule unat_of_nat16)
  then have u: "unat (of_nat L - 1 :: int16) = L - 1" by (simp only: e)
  have nov: "\<not> cap \<le> L - 1" using assms by simp
  have j1: "(of_nat j + 1 :: int16) = of_nat (Suc j)" by simp
  show ?thesis
    apply (subst dump_reversed.simps)
    apply (simp only: i li u if_True if_False j1 nov)
    apply (simp only: e)
    done
qed

lemma dump_reversed_desc:
  assumes "n \<le> cap" "cap < 32768"
  shows "r \<le> L \<Longrightarrow> L \<le> n \<Longrightarrow> j + r \<le> n \<Longrightarrow>
    dump_reversed cap mem (of_nat n) (of_nat j) (of_nat L - 1) out =
    dump_reversed cap mem (of_nat n) (of_nat (j + r)) (of_nat (L - r) - 1)
       (out @ map ((!) mem) (rev [L - r..<L]))"
proof (induction r arbitrary: j L out)
  case 0
  then show ?case by simp
next
  case (Suc r)
  have L: "0 < L" using Suc.prems by simp
  have "dump_reversed cap mem (of_nat n) (of_nat j) (of_nat L - 1) out =
        dump_reversed cap mem (of_nat n) (of_nat (Suc j)) (of_nat (L - 1) - 1) (out @ [mem ! (L - 1)])"
    using Suc.prems assms L by (intro dump_reversed_step) simp_all
  also have "\<dots> = dump_reversed cap mem (of_nat n) (of_nat (Suc j + r)) (of_nat (L - 1 - r) - 1)
       ((out @ [mem ! (L - 1)]) @ map ((!) mem) (rev [L - 1 - r..<L - 1]))"
    using Suc.prems by (intro Suc.IH) simp_all
  also have "(out @ [mem ! (L - 1)]) @ map ((!) mem) (rev [L - 1 - r..<L - 1])
      = out @ map ((!) mem) (rev [L - Suc r..<L])"
  proof -
    have "[L - Suc r..<L] = [L - Suc r..<L - 1] @ [L - 1]"
      using L Suc.prems upt_Suc_append[of "L - Suc r" "L - 1"] by simp
    then show ?thesis by simp
  qed
  finally show ?case by simp
qed


lemma dump_reversed_wrap:
  assumes "j < n" "n \<le> cap" "cap < 32768"
  shows "dump_reversed cap mem (of_nat n) (of_nat j) (of_nat 0 - 1) out =
         dump_reversed cap mem (of_nat n) (of_nat (Suc j)) (of_nat (n - 1) - 1) (out @ [mem ! (n - 1)])"
proof -
  have i: "sint (of_nat j :: int16) < sint (of_nat n :: int16)"
    using assms by (simp add: sint_of_nat16)
  have li: "sint (of_nat 0 - 1 :: int16) < 0"
    by simp
  have n: "0 < n" using assms by simp
  have e: "(of_nat n - 1 :: int16) = of_nat (n - 1)" using n by (rule of_nat_pred16)
  have "n - 1 < 65536" using assms by simp
  then have "unat (of_nat (n - 1) :: int16) = n - 1" by (rule unat_of_nat16)
  then have u: "unat (of_nat n - 1 :: int16) = n - 1" by (simp only: e)
  have nov: "\<not> cap \<le> n - 1" using assms by simp
  have j1: "(of_nat j + 1 :: int16) = of_nat (Suc j)" by simp
  show ?thesis
    apply (subst dump_reversed.simps)
    apply (simp only: i li u if_True if_False j1 nov)
    apply (simp only: e)
    done
qed

lemma dump_reversed_exit:
  "n < 32768 \<Longrightarrow> dump_reversed cap mem (of_nat n) (of_nat n) li out = Inr (li, out)"
  by (subst dump_reversed.simps) simp

lemma dump_reversed_walk:
  assumes "c < n" "n \<le> cap" "cap < 32768"
  shows "dump_reversed cap mem (of_nat n) 0 (of_nat c - 1) out =
         Inr (of_nat c - 1, out @ map ((!) mem) (rev [0..<c] @ rev [c..<n]))"
proof -
  have "dump_reversed cap mem (of_nat n) (of_nat 0) (of_nat c - 1) out =
        dump_reversed cap mem (of_nat n) (of_nat (0 + c)) (of_nat (c - c) - 1)
          (out @ map ((!) mem) (rev [c - c..<c]))"
    using assms by (intro dump_reversed_desc) simp_all
  also have "\<dots> = dump_reversed cap mem (of_nat n) (of_nat c) (of_nat 0 - 1)
          (out @ map ((!) mem) (rev [0..<c]))"
    by simp
  also have "\<dots> = dump_reversed cap mem (of_nat n) (of_nat (Suc c)) (of_nat (n - 1) - 1)
          ((out @ map ((!) mem) (rev [0..<c])) @ [mem ! (n - 1)])"
    using assms by (intro dump_reversed_wrap) simp_all
  also have "\<dots> = dump_reversed cap mem (of_nat n) (of_nat (Suc c + (n - 1 - c)))
          (of_nat (n - 1 - (n - 1 - c)) - 1)
          (((out @ map ((!) mem) (rev [0..<c])) @ [mem ! (n - 1)])
             @ map ((!) mem) (rev [n - 1 - (n - 1 - c)..<n - 1]))"
    using assms by (intro dump_reversed_desc) simp_all
  also have "Suc c + (n - 1 - c) = n" using assms by simp
  also have "n - 1 - (n - 1 - c) = c" using assms by simp
  also have "dump_reversed cap mem (of_nat n) (of_nat n) (of_nat c - 1)
          (((out @ map ((!) mem) (rev [0..<c])) @ [mem ! (n - 1)])
             @ map ((!) mem) (rev [c..<n - 1]))
       = Inr (of_nat c - 1, ((out @ map ((!) mem) (rev [0..<c])) @ [mem ! (n - 1)])
             @ map ((!) mem) (rev [c..<n - 1]))"
    using assms by (intro dump_reversed_exit) simp
  also have "((out @ map ((!) mem) (rev [0..<c])) @ [mem ! (n - 1)])
             @ map ((!) mem) (rev [c..<n - 1]) = out @ map ((!) mem) (rev [0..<c] @ rev [c..<n])"
  proof -
    have "[c..<n] = [c..<n - 1] @ [n - 1]"
      using assms upt_Suc_append[of c "n - 1"] by simp
    then show ?thesis by simp
  qed
  finally show ?thesis by simp
qed

subsection \<open>acquireSlow as a whole\<close>

lemma MAX_CAPTURE_SIZE_pos: "0 < MAX_CAPTURE_SIZE m"
  by (cases m) simp_all

lemma MAX_CAPTURE_SIZE_less: "MAX_CAPTURE_SIZE m < 32768"
  by (cases m) simp_all

lemma circ_store_append:
  "circ_store n (p, mem) (xs @ ys) = circ_store n (circ_store n (p, mem) xs) ys"
  by (induction xs arbitrary: p mem) simp_all

lemma circ_store_fst_less: "p < n \<Longrightarrow> fst (circ_store n (p, mem) xs) < n"
  by (induction xs arbitrary: p mem) simp_all

lemma circ_store_length: "length (snd (circ_store n (p, mem) xs)) = length mem"
  by (induction xs arbitrary: p mem) simp_all

lemma acquireSlow_run:
  assumes rc: "unat (readCount s) = n" and n: "0 < n" "n \<le> MAX_CAPTURE_SIZE m"
    and hit: "\<not> TRIGTEST (CHANPIN s !! k) (trigger_values s) (trigger s)"
    and miss: "\<forall>j<k. TRIGTEST (CHANPIN s !! j) (trigger_values s) (trigger s)"
    and cm: "circ_store n (0, logicdata s) (stake (Suc k + sbiw_count (delayCount s)) (CHANPIN s)) = (c, mem)"
  shows "acquireSlow m s =
     Some (Inr (s\<lparr>divider := (if divider s < 99 then 99 else divider s),
                   CHANPIN := sdrop (Suc k + sbiw_count (delayCount s)) (CHANPIN s),
                   logicdata := mem,
                   logicIndex := of_nat c - 1,
                   tx := tx s @ map ((!) mem) (rev [0..<c] @ rev [c..<n])\<rparr>))"
proof -
  define cap where "cap = MAX_CAPTURE_SIZE m"
  define pin where "pin = CHANPIN s"
  define d where "d = sbiw_count (delayCount s)"
  obtain c1 mem1 where c1: "circ_store n (0, logicdata s) (stake (Suc k) pin) = (c1, mem1)"
    by (cases "circ_store n (0, logicdata s) (stake (Suc k) pin)") auto
  have c1n: "c1 < n" using circ_store_fst_less[of 0 n "logicdata s" "stake (Suc k) pin"] n c1 by simp
  have cap: "n \<le> cap" "cap < 32768" using n MAX_CAPTURE_SIZE_less[of m] by (simp_all add: cap_def)
  have rcn: "readCount s = of_nat n" using rc[symmetric] by simp
  have T: "TRIGLOOP cap (readCount s) (trigger_values s) (trigger s) (pin, 0, logicdata s)
      = Some (Inr (sdrop (Suc k) pin, of_nat c1, mem1))"
    using TRIGLOOP_first[OF rc cap(1), of pin k "trigger_values s" "trigger s" 0 "logicdata s"]
      hit miss n c1 by (simp add: pin_def)
  have "stake (Suc k + d) pin = stake (Suc k) pin @ stake d (sdrop (Suc k) pin)"
    by (simp only: stake_add)
  then have c2: "circ_store n (c1, mem1) (stake d (sdrop (Suc k) pin)) = (c, mem)"
    using cm c1 circ_store_append[of n 0 "logicdata s" "stake (Suc k) pin" "stake d (sdrop (Suc k) pin)"]
    by (simp add: pin_def d_def)
  have S: "SAMPLOOP cap (readCount s) (sdrop (Suc k) pin, of_nat c1, mem1) (delayCount s)
      = Inr (sdrop (Suc k + d) pin, of_nat c, mem)"
    using SAMPLOOP_circ[OF rc cap(1), of "delayCount s" d c1 "sdrop (Suc k) pin" mem1] c1n c2
    by (simp add: d_def)
  have cn: "c < n" using circ_store_fst_less[OF c1n, of mem1 "stake d (sdrop (Suc k) pin)"] c2 by simp
  have D: "dump_reversed cap mem (readCount s) 0 (of_nat c - 1) [] =
      Inr (of_nat c - 1, map ((!) mem) (rev [0..<c] @ rev [c..<n]))"
    using dump_reversed_walk[OF cn cap, of mem "[]"] rcn by simp
  show ?thesis
    unfolding acquireSlow_def Let_def
    using T S D by (simp add: cap_def pin_def d_def)
qed

lemma SAMPLOOP_overrun:
  assumes rc: "unat rc = 0 \<or> cap < unat rc" and cap: "cap < 65536"
  shows "cap - p = d \<Longrightarrow> p \<le> cap \<Longrightarrow> d < sbiw_count dc \<Longrightarrow>
    SAMPLOOP cap rc (pin, of_nat p, mem) dc = Inl BufferOverrun"
proof (induction d arbitrary: p pin mem dc)
  case 0
  then have "unat (of_nat p :: int16) = cap" using cap by (simp add: unat_of_nat16)
  then show ?case by (simp add: SAMPLOOP.simps)
next
  case (Suc d)
  have p: "p < cap" using Suc.prems by simp
  have up: "unat (of_nat p :: int16) = p" using p cap by (simp add: unat_of_nat16)
  have us: "unat (of_nat (Suc p) :: int16) = Suc p" using p cap by (intro unat_of_nat16) simp
  have "(of_nat (Suc p) :: int16) \<noteq> rc"
  proof
    assume "(of_nat (Suc p) :: int16) = rc"
    then have "unat rc = Suc p" using us by simp
    then show False using rc p by auto
  qed
  moreover have "(of_nat p + 1 :: int16) = of_nat (Suc p)" by simp
  ultimately have ne: "(of_nat p + 1 :: int16) \<noteq> rc" by (simp only: not_False_eq_True)
  have sw: "store_wrap rc (shd pin) (of_nat p, mem) = (of_nat (Suc p), mem[p := shd pin])"
    unfolding store_wrap_def using up ne by simp
  have nz: "dc - 1 \<noteq> 0"
  proof
    assume "dc - 1 = 0"
    then have "sbiw_count dc = 1" by (rule sbiw_count_last)
    then show False using Suc.prems by simp
  qed
  have "sbiw_count (dc - 1) = sbiw_count dc - 1" using nz by (rule sbiw_count_step)
  then have "d < sbiw_count (dc - 1)" using Suc.prems by simp
  moreover have "cap - Suc p = d" "Suc p \<le> cap" using Suc.prems by simp_all
  ultimately have "SAMPLOOP cap rc (stl pin, of_nat (Suc p), mem[p := shd pin]) (dc - 1)
      = Inl BufferOverrun"
    by (intro Suc.IH)
  then show ?case
    apply (subst SAMPLOOP.simps)
    using up p sw nz by (simp only: if_False not_le[symmetric] simp_thms) simp
qed

lemma decode_count_0x3FFF: "decode_count m 0xFF 0x3F = 0"
  by (cases m) (simp_all add: decode_count_def)

lemma loop_arm:
  "loop m (s\<lparr>rx := 0x01 # r\<rparr>) =
     acquire m (s\<lparr>rx := r, logicdata := replicate (MAX_CAPTURE_SIZE m) 0\<rparr>)"
  by (simp add: loop_def)

lemma TRIGLOOP_mask0:
  "0 < cap \<Longrightarrow> TRIGLOOP cap rc tv 0 (pin, 0, mem) =
     Some (Inr (stl pin, store_wrap rc (shd pin) (0, mem)))"
  by (subst TRIGLOOP.simps) (simp add: TRIGTEST_def)

text \<open>
  C4. A protocol input that makes the sketch store outside \<open>logicdata\<close>: the
  set-read-delay-count command with both raw fields 0x3FFF decodes to
  \<open>readCount = 0\<close> and \<open>delayCount = 0\<close> (4 * 0x4000 wraps to 0 in 16 bits), and
  the arm command that follows stores 65536 samples after the trigger sample without ever
  wrapping the pointer, so it leaves the array after \<open>MAX_CAPTURE_SIZE\<close> stores.
\<close>

theorem buffer_overrun:
  "loops m 2 (power_up m pin\<lparr>rx := [0x81, 0xFF, 0x3F, 0xFF, 0x3F, 0x01]\<rparr>)
     = Some (Inl BufferOverrun)"
proof -
  define cap where "cap = MAX_CAPTURE_SIZE m"
  have cap: "0 < cap" "cap < 65536" "1 \<le> cap"
    using MAX_CAPTURE_SIZE_pos[of m] MAX_CAPTURE_SIZE_less[of m] by (simp_all add: cap_def)
  define s1 where "s1 = power_up m pin\<lparr>rx := [], readCount := 0, delayCount := 0,
      logicdata := replicate cap 0\<rparr>"
  have l1: "loop m (power_up m pin\<lparr>rx := [0x81, 0xFF, 0x3F, 0xFF, 0x3F, 0x01]\<rparr>)
     = Some (Inr (power_up m pin\<lparr>rx := [0x01], readCount := 0, delayCount := 0\<rparr>))"
    by (simp add: loop_read_delay_count decode_count_0x3FFF)
  have l2: "loop m (power_up m pin\<lparr>rx := [0x01], readCount := 0, delayCount := 0\<rparr>) = acquireSlow m s1"
    using loop_arm[where m=m and s="power_up m pin\<lparr>readCount := 0, delayCount := 0\<rparr>" and r="[]"]
    by (simp add: acquire_def s1_def power_up_def cap_def)
  have T: "TRIGLOOP cap 0 0 0 (pin, 0, replicate cap 0)
     = Some (Inr (stl pin, 1, (replicate cap 0)[0 := shd pin]))"
    using TRIGLOOP_mask0[OF cap(1), of 0 0 pin "replicate cap 0"] by (simp add: store_wrap_def)
  have S: "SAMPLOOP cap 0 (stl pin, of_nat 1, (replicate cap 0)[0 := shd pin]) 0 = Inl BufferOverrun"
    using cap by (intro SAMPLOOP_overrun[where d="cap - 1"]) (simp_all add: sbiw_count_def)
  have "acquireSlow m s1 = Some (Inl BufferOverrun)"
    unfolding acquireSlow_def Let_def using T S
    by (simp add: s1_def power_up_def cap_def)
  then show ?thesis using l1 l2 by (simp add: numeral_2_eq_2)
qed

subsection \<open>Arming after power-up\<close>

lemma unat_capacity: "unat (of_nat (MAX_CAPTURE_SIZE m) :: int16) = MAX_CAPTURE_SIZE m"
  using MAX_CAPTURE_SIZE_less[of m] by (intro unat_of_nat16) simp

lemma not_TRIGTEST_mask0: "\<not> TRIGTEST x tv 0"
  by (simp add: TRIGTEST_def)

lemma acquireSlow_power_up:
  assumes "circ_store (MAX_CAPTURE_SIZE m) (0, replicate (MAX_CAPTURE_SIZE m) 0) (stake 65537 pin) = (c, mem)"
  shows "acquireSlow m (power_up m pin) =
     Some (Inr (power_up m pin\<lparr>divider := 99, CHANPIN := sdrop 65537 pin, logicdata := mem,
        logicIndex := of_nat c - 1,
        tx := map ((!) mem) (rev [0..<c] @ rev [c..<MAX_CAPTURE_SIZE m])\<rparr>))"
proof -
  have "acquireSlow m (power_up m pin) =
     Some (Inr (power_up m pin\<lparr>divider := (if divider (power_up m pin) < 99 then 99 else divider (power_up m pin)),
                   CHANPIN := sdrop (Suc 0 + sbiw_count (delayCount (power_up m pin))) (CHANPIN (power_up m pin)),
                   logicdata := mem,
                   logicIndex := of_nat c - 1,
                   tx := tx (power_up m pin) @ map ((!) mem) (rev [0..<c] @ rev [c..<MAX_CAPTURE_SIZE m])\<rparr>))"
  proof (rule acquireSlow_run)
    show "unat (readCount (power_up m pin)) = MAX_CAPTURE_SIZE m"
      by (simp add: power_up_def unat_capacity)
    show "0 < MAX_CAPTURE_SIZE m" by (rule MAX_CAPTURE_SIZE_pos)
    show "MAX_CAPTURE_SIZE m \<le> MAX_CAPTURE_SIZE m" by simp
    show "\<not> TRIGTEST (CHANPIN (power_up m pin) !! 0) (trigger_values (power_up m pin)) (trigger (power_up m pin))"
      by (simp add: power_up_def not_TRIGTEST_mask0)
    show "\<forall>j<0. TRIGTEST (CHANPIN (power_up m pin) !! j) (trigger_values (power_up m pin)) (trigger (power_up m pin))"
      by simp
    show "circ_store (MAX_CAPTURE_SIZE m) (0, logicdata (power_up m pin))
       (stake (Suc 0 + sbiw_count (delayCount (power_up m pin))) (CHANPIN (power_up m pin))) = (c, mem)"
      using assms by (simp add: power_up_def sbiw_count_def)
  qed
  then show ?thesis by (simp add: power_up_def sbiw_count_def)
qed

lemma loop_arm_power_up: "loop m (power_up m pin\<lparr>rx := [0x01]\<rparr>) = acquireSlow m (power_up m pin)"
  using loop_arm[where m=m and s="power_up m pin" and r="[]"]
  by (simp add: acquire_def power_up_def)

text \<open>
  C2. With \<open>delayCount = 0\<close>, which is the value at power-up, the phase after the trigger
  does not store zero samples: an arm command right after power-up reads 65537 samples
  from the port (the one that fires the trigger and 65536 after it) and writes them
  circularly into the buffer, because the loop decrements the register after the store
  and 0 wraps to 0xFFFF.
\<close>

theorem delay_zero_samples_65536:
  "delayCount (power_up m pin) = 0
   \<and> map_option (map_sum id (\<lambda>s'. (CHANPIN s', logicdata s')))
         (loop m (power_up m pin\<lparr>rx := [0x01]\<rparr>))
       = Some (Inr (sdrop 65537 pin,
            snd (circ_store (MAX_CAPTURE_SIZE m) (0, replicate (MAX_CAPTURE_SIZE m) 0)
                   (stake 65537 pin))))"
proof -
  obtain c mem where cm: "circ_store (MAX_CAPTURE_SIZE m) (0, replicate (MAX_CAPTURE_SIZE m) 0) (stake 65537 pin) = (c, mem)"
    by (cases "circ_store (MAX_CAPTURE_SIZE m) (0, replicate (MAX_CAPTURE_SIZE m) 0) (stake 65537 pin)") auto
  show ?thesis
    using acquireSlow_power_up[OF cm] cm by (simp add: loop_arm_power_up) (simp add: power_up_def)
qed

text \<open>
  C10. At power-up \<open>readCount\<close> is the capacity and \<open>delayCount\<close>, \<open>divider\<close>, the
  trigger mask and the trigger value are 0. An arm command in that state runs
  acquireSlow, which returns with the divider raised to 99, and every sample satisfies
  the trigger, so the trigger loop ends after the first sample.
\<close>

theorem power_up_arm:
  "readCount (power_up m pin) = of_nat (MAX_CAPTURE_SIZE m)
   \<and> sint (readCount (power_up m pin)) = int (MAX_CAPTURE_SIZE m)
   \<and> delayCount (power_up m pin) = 0
   \<and> divider (power_up m pin) = 0
   \<and> trigger (power_up m pin) = 0
   \<and> trigger_values (power_up m pin) = 0
   \<and> acquire m (power_up m pin) = acquireSlow m (power_up m pin)
   \<and> loop m (power_up m pin\<lparr>rx := [0x01]\<rparr>) = acquireSlow m (power_up m pin)
   \<and> map_option (map_sum id divider) (acquireSlow m (power_up m pin)) = Some (Inr 99)
   \<and> \<not> TRIGTEST x (trigger_values (power_up m pin)) (trigger (power_up m pin))
   \<and> map_option (map_sum id fst)
        (TRIGLOOP (MAX_CAPTURE_SIZE m) (readCount (power_up m pin))
           (trigger_values (power_up m pin)) (trigger (power_up m pin))
           (pin, 0, logicdata (power_up m pin))) = Some (Inr (stl pin))"
proof -
  obtain c mem where cm: "circ_store (MAX_CAPTURE_SIZE m) (0, replicate (MAX_CAPTURE_SIZE m) 0) (stake 65537 pin) = (c, mem)"
    by (cases "circ_store (MAX_CAPTURE_SIZE m) (0, replicate (MAX_CAPTURE_SIZE m) 0) (stake 65537 pin)") auto
  have a: "map_option (map_sum id divider) (acquireSlow m (power_up m pin)) = Some (Inr 99)"
    using acquireSlow_power_up[OF cm] by simp
  have b: "sint (of_nat (MAX_CAPTURE_SIZE m) :: int16) = int (MAX_CAPTURE_SIZE m)"
    using MAX_CAPTURE_SIZE_less[of m] by (intro sint_of_nat16)
  have c: "map_option (map_sum id fst)
        (TRIGLOOP (MAX_CAPTURE_SIZE m) (of_nat (MAX_CAPTURE_SIZE m)) 0 0
           (pin, 0, replicate (MAX_CAPTURE_SIZE m) 0)) = Some (Inr (stl pin))"
    using TRIGLOOP_mask0[OF MAX_CAPTURE_SIZE_pos, of m] by simp
  have d: "acquire m (power_up m pin) = acquireSlow m (power_up m pin)"
    by (simp add: acquire_def power_up_def)
  show ?thesis
    using a b c d loop_arm_power_up[of m pin]
    by (simp add: not_TRIGTEST_mask0 power_up_def)
qed

subsection \<open>The loops of acquire2MHz\<close>

lemma lin_store_eq:
  "p + length xs \<le> length mem \<Longrightarrow> lin_store p mem xs = take p mem @ xs @ drop (p + length xs) mem"
proof (induction xs arbitrary: p mem)
  case Nil
  then show ?case by simp
next
  case (Cons x xs)
  have p: "p < length mem" using Cons.prems by simp
  have "lin_store (Suc p) (mem[p := x]) xs =
      take (Suc p) (mem[p := x]) @ xs @ drop (Suc p + length xs) (mem[p := x])"
    using Cons.prems by (intro Cons.IH) simp
  moreover have "take (Suc p) (mem[p := x]) = take p mem @ [x]"
    using p by (simp add: take_Suc_conv_app_nth)
  ultimately show ?case by simp
qed

lemma TRIGLOOP2_first:
  "\<not> TRIGTEST (pin !! k) tv tm \<Longrightarrow> \<forall>j<k. TRIGTEST (pin !! j) tv tm \<Longrightarrow>
    TRIGLOOP2 tv tm (pin, mem) = Some (sdrop (Suc k) pin, mem[0 := pin !! k])"
proof (induction k arbitrary: pin mem)
  case 0
  then show ?case by (subst TRIGLOOP2.simps) (simp add: TRIGLOOP2_body_def)
next
  case (Suc k)
  have t0: "TRIGTEST (shd pin) tv tm" using Suc.prems(2) by (metis snth.simps(1) zero_less_Suc)
  have a: "\<not> TRIGTEST (stl pin !! k) tv tm" using Suc.prems(1) by simp
  have b: "\<forall>j<k. TRIGTEST (stl pin !! j) tv tm" using Suc.prems(2) by auto
  note IH = Suc.IH[OF a b, of "mem[0 := shd pin]"]
  show ?case using t0 IH by (subst TRIGLOOP2.simps) (simp add: TRIGLOOP2_body_def)
qed

lemma TRIGLOOP2_returns:
  assumes "TRIGLOOP2 tv tm st = Some r"
  shows "\<exists>k. fst r = sdrop (Suc k) (fst st) \<and> \<not> TRIGTEST (fst st !! k) tv tm"
proof (rule TRIGLOOP2.raw_induct[where P = "\<lambda>tv tm st r.
    \<exists>k. fst r = sdrop (Suc k) (fst st) \<and> \<not> TRIGTEST (fst st !! k) tv tm", OF _ assms])
  fix f :: "byte \<Rightarrow> byte \<Rightarrow> byte stream \<times> byte list \<Rightarrow> (byte stream \<times> byte list) option"
  fix tv tm st r
  assume IH: "\<And>tv tm st r. f tv tm st = Some r \<Longrightarrow>
    \<exists>k. fst r = sdrop (Suc k) (fst st) \<and> \<not> TRIGTEST (fst st !! k) tv tm"
  assume body: "(case TRIGLOOP2_body tv tm st of
        (st', again) \<Rightarrow> if again then f tv tm st' else Some st') = Some r"
  obtain pin mem where st: "st = (pin, mem)" by (cases st) auto
  show "\<exists>k. fst r = sdrop (Suc k) (fst st) \<and> \<not> TRIGTEST (fst st !! k) tv tm"
  proof (cases "TRIGTEST (shd pin) tv tm")
    case True
    then have "f tv tm (stl pin, mem[0 := shd pin]) = Some r"
      using body st by (simp add: TRIGLOOP2_body_def)
    from IH[OF this] obtain k where
      "fst r = sdrop (Suc k) (stl pin)" "\<not> TRIGTEST (stl pin !! k) tv tm" by auto
    then have "fst r = sdrop (Suc (Suc k)) (fst st) \<and> \<not> TRIGTEST (fst st !! Suc k) tv tm"
      using st by simp
    then show ?thesis by blast
  next
    case False
    then have "r = (stl pin, mem[0 := shd pin])"
      using body st by (simp add: TRIGLOOP2_body_def)
    then have "fst r = sdrop (Suc 0) (fst st) \<and> \<not> TRIGTEST (fst st !! 0) tv tm"
      using st False by simp
    then show ?thesis by blast
  qed
qed

lemma SAMPLOOP2_linear:
  assumes cap: "cap < 65536"
  shows "sbiw_count dc = k \<Longrightarrow> p + k \<le> cap \<Longrightarrow>
    SAMPLOOP2 cap (pin, of_nat p, mem) dc =
      Inr (sdrop k pin, of_nat (p + k), lin_store p mem (stake k pin))"
proof (induction k arbitrary: dc pin p mem)
  case 0
  then show ?case using sbiw_count_pos[of dc] by simp
next
  case (Suc k)
  have up: "unat (of_nat p :: int16) = p" using Suc.prems(2) cap by (simp add: unat_of_nat16)
  have nov: "\<not> cap \<le> unat (of_nat p :: int16)" using up Suc.prems(2) by simp
  have p1: "(of_nat p + 1 :: int16) = of_nat (Suc p)" by simp
  show ?case
  proof (cases "dc - 1 = 0")
    case True
    then have "k = 0" using Suc.prems(1) sbiw_count_last[of dc] by simp
    then show ?thesis using True nov up by (simp add: SAMPLOOP2.simps)
  next
    case False
    then have "sbiw_count (dc - 1) = k" using Suc.prems(1) sbiw_count_step[of dc] by simp
    moreover have "Suc p + k \<le> cap" using Suc.prems(2) by simp
    ultimately have "SAMPLOOP2 cap (stl pin, of_nat (Suc p), mem[p := shd pin]) (dc - 1) =
       Inr (sdrop k (stl pin), of_nat (Suc p + k), lin_store (Suc p) (mem[p := shd pin]) (stake k (stl pin)))"
      by (rule Suc.IH)
    then show ?thesis using False nov up
      by (subst SAMPLOOP2.simps) (simp only: p1 if_False, simp)
  qed
qed

lemma dump2MHz_all:
  assumes cap: "cap < 32768"
  shows "j \<le> cap \<Longrightarrow> dump2MHz cap mem (of_nat j - 1) out = Inr (out @ rev (map ((!) mem) [0..<j]))"
proof (induction j arbitrary: out)
  case 0
  show ?case by (subst dump2MHz.simps) simp
next
  case (Suc j)
  have e: "(of_nat (Suc j) - 1 :: int16) = of_nat j" by simp
  have s: "sint (of_nat j :: int16) = int j" using Suc.prems cap by (intro sint_of_nat16) simp
  have u: "unat (of_nat j :: int16) = j" using Suc.prems cap by (intro unat_of_nat16) simp
  have nov: "\<not> cap \<le> j" using Suc.prems by simp
  have "dump2MHz cap mem (of_nat j - 1) (out @ [mem ! j]) = Inr ((out @ [mem ! j]) @ rev (map ((!) mem) [0..<j]))"
    using Suc.prems by (intro Suc.IH) simp
  then show ?case
    apply (subst dump2MHz.simps)
    apply (simp only: e s u nov if_False)
    apply simp
    done
qed

lemma take_as_map_nth: "n \<le> length xs \<Longrightarrow> map ((!) xs) [0..<n] = take n xs"
  by (rule nth_equalityI) simp_all

lemma stake_sdrop_Suc: "pin !! k # stake n (sdrop (Suc k) pin) = stake (Suc n) (sdrop k pin)"
  by simp

lemma acquire2MHz_run:
  assumes rc: "unat (readCount s) = n" and n: "2 \<le> n" "n \<le> MAX_CAPTURE_SIZE m"
    and len: "length (logicdata s) = MAX_CAPTURE_SIZE m"
    and hit: "\<not> TRIGTEST (CHANPIN s !! k) (trigger_values s) (trigger s)"
    and miss: "\<forall>j<k. TRIGTEST (CHANPIN s !! j) (trigger_values s) (trigger s)"
  shows "acquire2MHz m s =
     Some (Inr (s\<lparr>delayCount := readCount s - 1,
                   CHANPIN := sdrop (k + n) (CHANPIN s),
                   logicdata := stake n (sdrop k (CHANPIN s)) @ drop n (logicdata s),
                   tx := tx s @ rev (stake n (sdrop k (CHANPIN s)))\<rparr>))"
proof -
  define cap where "cap = MAX_CAPTURE_SIZE m"
  define pin where "pin = CHANPIN s"
  define mem where "mem = logicdata s"
  have cap: "n \<le> cap" "cap < 32768" "cap < 65536"
    using n MAX_CAPTURE_SIZE_less[of m] by (simp_all add: cap_def)
  have rcn: "readCount s = of_nat n" using rc[symmetric] by simp
  have n1: "0 < n" using n by simp
  have rc1: "readCount s - 1 = of_nat (n - 1)" unfolding rcn using n1 by (rule of_nat_pred16)
  have "unat (of_nat (n - 1) :: int16) = n - 1" using cap n by (intro unat_of_nat16) simp
  then have u1: "unat (readCount s - 1) = n - 1" by (simp only: rc1)
  then have "readCount s - 1 \<noteq> 0" using n by auto
  then have cnt: "sbiw_count (readCount s - 1) = n - 1" using u1 by (simp add: sbiw_count_def)
  have T: "TRIGLOOP2 (trigger_values s) (trigger s) (pin, mem)
      = Some (sdrop (Suc k) pin, mem[0 := pin !! k])"
    using hit miss unfolding pin_def by (rule TRIGLOOP2_first)
  have "SAMPLOOP2 cap (sdrop (Suc k) pin, of_nat 1, mem[0 := pin !! k]) (readCount s - 1)
      = Inr (sdrop (n - 1) (sdrop (Suc k) pin), of_nat (1 + (n - 1)),
             lin_store 1 (mem[0 := pin !! k]) (stake (n - 1) (sdrop (Suc k) pin)))"
    using cap(3) cnt by (rule SAMPLOOP2_linear) (use n cap in simp)
  moreover have "lin_store 1 (mem[0 := pin !! k]) (stake (n - 1) (sdrop (Suc k) pin))
      = stake n (sdrop k pin) @ drop n mem"
  proof -
    have "lin_store 1 (mem[0 := pin !! k]) (stake (n - 1) (sdrop (Suc k) pin))
      = take 1 (mem[0 := pin !! k]) @ stake (n - 1) (sdrop (Suc k) pin)
          @ drop (1 + length (stake (n - 1) (sdrop (Suc k) pin))) (mem[0 := pin !! k])"
      by (rule lin_store_eq) (use n len cap in \<open>simp add: mem_def cap_def\<close>)
    moreover have "take 1 (mem[0 := pin !! k]) = [pin !! k]"
      using n len by (cases mem) (simp_all add: mem_def)
    moreover have "pin !! k # stake (n - 1) (sdrop (Suc k) pin) = stake (Suc (n - 1)) (sdrop k pin)"
      by (rule stake_sdrop_Suc)
    ultimately show ?thesis using n1 by simp
  qed
  moreover have "sdrop (n - 1) (sdrop (Suc k) pin) = sdrop (k + n) pin"
  proof -
    have "sdrop (n - 1) (sdrop (Suc k) pin) = sdrop (Suc k + (n - 1)) pin" by (rule sdrop_add)
    moreover have "Suc k + (n - 1) = k + n" using n1 by simp
    ultimately show ?thesis by (simp only:)
  qed
  ultimately have S: "SAMPLOOP2 cap (sdrop (Suc k) pin, 1, mem[0 := pin !! k]) (readCount s - 1)
      = Inr (sdrop (k + n) pin, of_nat n, stake n (sdrop k pin) @ drop n mem)"
    using n1 by simp
  have D: "dump2MHz cap (stake n (sdrop k pin) @ drop n mem) (readCount s - 1) []
      = Inr (rev (stake n (sdrop k pin)))"
  proof -
    have "dump2MHz cap (stake n (sdrop k pin) @ drop n mem) (of_nat n - 1) []
      = Inr ([] @ rev (map ((!) (stake n (sdrop k pin) @ drop n mem)) [0..<n]))"
      using cap(2) cap(1) by (rule dump2MHz_all)
    moreover have "map ((!) (stake n (sdrop k pin) @ drop n mem)) [0..<n]
      = take n (stake n (sdrop k pin) @ drop n mem)"
      by (rule take_as_map_nth) simp
    ultimately show ?thesis by (simp add: rcn)
  qed
  show ?thesis
    unfolding acquire2MHz_def Let_def
    using T S D by (simp add: cap_def pin_def mem_def)
qed

subsection \<open>acquire2MHz, the trigger test and the dump order\<close>

text \<open>
  One pass of the 2 MHz trigger loop over a sample that does not satisfy the trigger
  (mask 1, value 0, sample 1) has stored that sample at position 0.
\<close>

theorem wait_loop_stores:
  "TRIGLOOP2_body 0 1 (1 ## sconst 0, [0, 0, 0, 0]) = ((sconst 0, [1, 0, 0, 0]), True)"
  by (simp add: TRIGLOOP2_body_def TRIGTEST_def)

text \<open>
  C5. In acquire2MHz, for \<open>2 \<le> readCount \<le> capacity\<close> and an input whose
  sample \<open>k\<close> is the first to satisfy the trigger: every pass of the trigger loop writes
  the sample it examines to position 0 and to no other position, so that the loop ends
  with the first satisfying sample at position 0; then exactly \<open>readCount - 1\<close> further
  samples are stored at positions 1 to \<open>readCount - 1\<close>, and the bytes are sent in
  reverse order.
\<close>

theorem regime_B_capture:
  assumes "unat (readCount s) = n" and "2 \<le> n" and "n \<le> MAX_CAPTURE_SIZE m"
    and "length (logicdata s) = MAX_CAPTURE_SIZE m"
    and "\<not> TRIGTEST (CHANPIN s !! k) (trigger_values s) (trigger s)"
    and "\<forall>j<k. TRIGTEST (CHANPIN s !! j) (trigger_values s) (trigger s)"
  shows "(\<forall>pin mem. fst (TRIGLOOP2_body (trigger_values s) (trigger s) (pin, mem))
            = (stl pin, mem[0 := shd pin]))
     \<and> TRIGLOOP2 (trigger_values s) (trigger s) (CHANPIN s, logicdata s)
         = Some (sdrop (Suc k) (CHANPIN s), (logicdata s)[0 := CHANPIN s !! k])
     \<and> acquire2MHz m s =
         Some (Inr (s\<lparr>delayCount := readCount s - 1,
                       CHANPIN := sdrop (k + n) (CHANPIN s),
                       logicdata := stake n (sdrop k (CHANPIN s)) @ drop n (logicdata s),
                       tx := tx s @ rev (stake n (sdrop k (CHANPIN s)))\<rparr>))"
  using acquire2MHz_run[OF assms] TRIGLOOP2_first[OF assms(5) assms(6)]
  by (simp add: TRIGLOOP2_body_def)

lemma stake_example: "stake 4 (2 ## sconst (3 :: byte)) = [2, 3, 3, 3]"
  by (simp add: numeral_eq_Suc)

theorem regime_B_capture_witness:
  "unat (readCount (power_up ATmega328P (1 ## 2 ## sconst 3)\<lparr>readCount := 4, trigger := 1, divider := 49\<rparr>)) = 4
   \<and> (2 :: nat) \<le> 4 \<and> 4 \<le> MAX_CAPTURE_SIZE ATmega328P
   \<and> length (logicdata (power_up ATmega328P (1 ## 2 ## sconst 3)\<lparr>readCount := 4, trigger := 1, divider := 49\<rparr>))
        = MAX_CAPTURE_SIZE ATmega328P
   \<and> \<not> TRIGTEST 2 0 1 \<and> TRIGTEST 1 0 1
   \<and> map_option (map_sum id (\<lambda>s'. (take 4 (logicdata s'), tx s', delayCount s')))
        (acquire2MHz ATmega328P
           (power_up ATmega328P (1 ## 2 ## sconst 3)\<lparr>readCount := 4, trigger := 1, divider := 49\<rparr>))
       = Some (Inr ([2, 3, 3, 3], [3, 3, 3, 2], 3))"
  using regime_B_capture[where m=ATmega328P and n=4 and k="Suc 0"
      and s="power_up ATmega328P (1 ## 2 ## sconst 3)\<lparr>readCount := 4, trigger := 1, divider := 49\<rparr>"]
  by (simp add: power_up_def TRIGTEST_def stake_example)




lemma snth_Cons_sconst: "(x ## sconst x) !! k = x"
  by (cases k) simp_all

lemma TRIGLOOP_pass:
  "0 < cap \<Longrightarrow> \<not> TRIGTEST (shd pin) tv tm \<Longrightarrow>
     TRIGLOOP cap rc tv tm (pin, 0, mem) = Some (Inr (stl pin, store_wrap rc (shd pin) (0, mem)))"
  by (subst TRIGLOOP.simps) simp

lemma TRIGLOOP2_pass:
  "\<not> TRIGTEST (shd pin) tv tm \<Longrightarrow> TRIGLOOP2 tv tm (pin, mem) = Some (stl pin, mem[0 := shd pin])"
  by (subst TRIGLOOP2.simps) (simp add: TRIGLOOP2_body_def)

text \<open>
  C7. The trigger test lets a sample \<open>x\<close> through exactly when
  \<open>(x XOR v) AND msk = 0\<close>: both trigger loops return after reading only \<open>x\<close>,
  whatever follows on the port, exactly in that case. With mask 0 both loops return
  after the first sample they read, which they have stored at position 0.
\<close>

theorem trigger_test_exact:
  "(\<not> TRIGTEST x v msk \<longleftrightarrow> (x XOR v) AND msk = 0)
   \<and> ((\<forall>pin mem. TRIGLOOP2 v msk (x ## pin, mem) = Some (pin, mem[0 := x]))
          \<longleftrightarrow> (x XOR v) AND msk = 0)
   \<and> ((\<forall>pin mem rc. TRIGLOOP (MAX_CAPTURE_SIZE m) rc v msk (x ## pin, 0, mem)
              = Some (Inr (pin, store_wrap rc x (0, mem))))
          \<longleftrightarrow> (x XOR v) AND msk = 0)
   \<and> TRIGLOOP2 v 0 (pin', mem') = Some (stl pin', mem'[0 := shd pin'])
   \<and> TRIGLOOP (MAX_CAPTURE_SIZE m) rc' v 0 (pin', 0, mem')
        = Some (Inr (stl pin', store_wrap rc' (shd pin') (0, mem')))"
proof (intro conjI)
  show "\<not> TRIGTEST x v msk \<longleftrightarrow> (x XOR v) AND msk = 0"
    by (simp add: TRIGTEST_def)
next
  show "(\<forall>pin mem. TRIGLOOP2 v msk (x ## pin, mem) = Some (pin, mem[0 := x]))
          \<longleftrightarrow> (x XOR v) AND msk = 0"
  proof
    assume a: "\<forall>pin mem. TRIGLOOP2 v msk (x ## pin, mem) = Some (pin, mem[0 := x])"
    then have "TRIGLOOP2 v msk (x ## sconst x, []) = Some (sconst x, [][0 := x])" by blast
    from TRIGLOOP2_returns[OF this] obtain k where "\<not> TRIGTEST ((x ## sconst x) !! k) v msk"
      by auto
    then show "(x XOR v) AND msk = 0" by (simp add: snth_Cons_sconst TRIGTEST_def)
  next
    assume "(x XOR v) AND msk = 0"
    then have "\<not> TRIGTEST x v msk" by (simp add: TRIGTEST_def)
    then show "\<forall>pin mem. TRIGLOOP2 v msk (x ## pin, mem) = Some (pin, mem[0 := x])"
      using TRIGLOOP2_pass[of "x ## _" v msk] by simp
  qed
next
  show "(\<forall>pin mem rc. TRIGLOOP (MAX_CAPTURE_SIZE m) rc v msk (x ## pin, 0, mem)
              = Some (Inr (pin, store_wrap rc x (0, mem))))
          \<longleftrightarrow> (x XOR v) AND msk = 0"
  proof
    assume a: "\<forall>pin mem rc. TRIGLOOP (MAX_CAPTURE_SIZE m) rc v msk (x ## pin, 0, mem)
              = Some (Inr (pin, store_wrap rc x (0, mem)))"
    then have "TRIGLOOP (MAX_CAPTURE_SIZE m) 0 v msk (x ## sconst x, 0, [])
              = Some (Inr (sconst x, store_wrap 0 x (0, [])))" by blast
    from TRIGLOOP_returns[OF this] obtain k where "\<not> TRIGTEST ((x ## sconst x) !! k) v msk"
      by auto
    then show "(x XOR v) AND msk = 0" by (simp add: snth_Cons_sconst TRIGTEST_def)
  next
    assume "(x XOR v) AND msk = 0"
    then have "\<not> TRIGTEST x v msk" by (simp add: TRIGTEST_def)
    then show "\<forall>pin mem rc. TRIGLOOP (MAX_CAPTURE_SIZE m) rc v msk (x ## pin, 0, mem)
              = Some (Inr (pin, store_wrap rc x (0, mem)))"
      using TRIGLOOP_pass[OF MAX_CAPTURE_SIZE_pos, of "x ## _" v msk m] by simp
  qed
next
  show "TRIGLOOP2 v 0 (pin', mem') = Some (stl pin', mem'[0 := shd pin'])"
    by (rule TRIGLOOP2_pass) (rule not_TRIGTEST_mask0)
next
  show "TRIGLOOP (MAX_CAPTURE_SIZE m) rc' v 0 (pin', 0, mem')
        = Some (Inr (stl pin', store_wrap rc' (shd pin') (0, mem')))"
    by (rule TRIGLOOP_pass) (rule MAX_CAPTURE_SIZE_pos, rule not_TRIGTEST_mask0)
qed

subsection \<open>What an acquisition changes\<close>

lemma acquireSlow_frame:
  "acquireSlow m s = Some (Inr s') \<Longrightarrow>
     rx s' = rx s \<and> trigger s' = trigger s \<and> trigger_values s' = trigger_values s
     \<and> readCount s' = readCount s \<and> delayCount s' = delayCount s
     \<and> divider s' = (if divider s < 99 then 99 else divider s)"
  by (auto simp: acquireSlow_def Let_def split: option.splits sum.splits prod.splits)

lemma acquire2MHz_frame:
  "acquire2MHz m s = Some (Inr s') \<Longrightarrow>
     rx s' = rx s \<and> trigger s' = trigger s \<and> trigger_values s' = trigger_values s
     \<and> readCount s' = readCount s \<and> delayCount s' = readCount s - 1
     \<and> divider s' = divider s"
  by (auto simp: acquire2MHz_def Let_def split: option.splits sum.splits prod.splits)

lemma acquire5MHz_frame:
  "acquire5MHz m s = Some (Inr s') \<Longrightarrow>
     rx s' = rx s \<and> trigger s' = trigger s \<and> trigger_values s' = trigger_values s
     \<and> readCount s' = readCount s \<and> delayCount s' = delayCount s
     \<and> divider s' = divider s"
  by (auto simp: acquire5MHz_def Let_def split: option.splits sum.splits prod.splits)

text \<open>
  Arming in the power-up state changes \<open>divider\<close> from 0 to 99; arming with divider 49
  changes \<open>delayCount\<close> from 0 to \<open>readCount - 1 = 1535\<close>.
\<close>

theorem engine_changes_session:
  "divider (power_up ATmega328P (sconst 0)) = 0
   \<and> map_option (map_sum id divider) (acquire ATmega328P (power_up ATmega328P (sconst 0)))
       = Some (Inr 99)
   \<and> delayCount (power_up ATmega328P (sconst 0)\<lparr>divider := 49\<rparr>) = 0
   \<and> map_option (map_sum id delayCount)
         (acquire ATmega328P (power_up ATmega328P (sconst 0)\<lparr>divider := 49\<rparr>))
       = Some (Inr 1535)"
proof -
  obtain c mem where cm: "circ_store (MAX_CAPTURE_SIZE ATmega328P) (0, replicate (MAX_CAPTURE_SIZE ATmega328P) 0) (stake 65537 (sconst 0)) = (c, mem)"
    by (cases "circ_store (MAX_CAPTURE_SIZE ATmega328P) (0, replicate (MAX_CAPTURE_SIZE ATmega328P) 0) (stake 65537 (sconst 0))") auto
  have a: "map_option (map_sum id divider) (acquire ATmega328P (power_up ATmega328P (sconst 0)))
       = Some (Inr 99)"
    using acquireSlow_power_up[OF cm] by (simp add: acquire_def power_up_def)
  have "acquire2MHz ATmega328P (power_up ATmega328P (sconst 0)\<lparr>divider := 49\<rparr>) = 
     Some (Inr ((power_up ATmega328P (sconst 0)\<lparr>divider := 49\<rparr>)
         \<lparr>delayCount := readCount (power_up ATmega328P (sconst 0)\<lparr>divider := 49\<rparr>) - 1,
          CHANPIN := sdrop (0 + 1536) (CHANPIN (power_up ATmega328P (sconst 0)\<lparr>divider := 49\<rparr>)),
          logicdata := stake 1536 (sdrop 0 (CHANPIN (power_up ATmega328P (sconst 0)\<lparr>divider := 49\<rparr>)))
             @ drop 1536 (logicdata (power_up ATmega328P (sconst 0)\<lparr>divider := 49\<rparr>)),
          tx := tx (power_up ATmega328P (sconst 0)\<lparr>divider := 49\<rparr>)
             @ rev (stake 1536 (sdrop 0 (CHANPIN (power_up ATmega328P (sconst 0)\<lparr>divider := 49\<rparr>))))\<rparr>))"
    by (rule acquire2MHz_run) (simp_all add: power_up_def TRIGTEST_def)
  then have b: "map_option (map_sum id delayCount)
         (acquire ATmega328P (power_up ATmega328P (sconst 0)\<lparr>divider := 49\<rparr>))
       = Some (Inr 1535)"
    by (simp add: acquire_def) (simp add: power_up_def)
  show ?thesis using a b by (simp add: power_up_def)
qed

text \<open>
  C3. An acquisition that returns leaves the trigger mask, the trigger values
  and \<open>readCount\<close> unchanged. acquireSlow raises a divider below 99 to 99 and leaves
  \<open>delayCount\<close> unchanged; acquire2MHz leaves the divider unchanged and sets
  \<open>delayCount\<close> to \<open>readCount - 1\<close>.
\<close>

theorem session_frame:
  assumes "acquire m s = Some (Inr s')"
  shows "trigger s' = trigger s \<and> trigger_values s' = trigger_values s
     \<and> readCount s' = readCount s
     \<and> divider s' = (if divider s = 19 \<or> divider s = 49 \<or> 99 \<le> divider s
                      then divider s else 99)
     \<and> delayCount s' = (if divider s = 49 then readCount s - 1 else delayCount s)"
proof (cases "divider s = 19")
  case True
  then show ?thesis using assms acquire5MHz_frame[of m s s'] by (simp add: acquire_def)
next
  case n19: False
  show ?thesis
  proof (cases "divider s = 49")
    case True
    then show ?thesis using assms acquire2MHz_frame[of m s s'] by (simp add: acquire_def)
  next
    case False
    then have "acquireSlow m s = Some (Inr s')" using assms n19 by (simp add: acquire_def)
    from acquireSlow_frame[OF this] show ?thesis using False n19
      by (auto simp: not_le)
  qed
qed

theorem session_frame_witness:
  "\<exists>s'. acquire ATmega328P (power_up ATmega328P (sconst 0)) = Some (Inr s')
     \<and> trigger s' = 0 \<and> trigger_values s' = 0 \<and> readCount s' = 1536
     \<and> divider s' = 99 \<and> delayCount s' = 0"
proof -
  obtain c mem where cm: "circ_store (MAX_CAPTURE_SIZE ATmega328P) (0, replicate (MAX_CAPTURE_SIZE ATmega328P) 0) (stake 65537 (sconst 0)) = (c, mem)"
    by (cases "circ_store (MAX_CAPTURE_SIZE ATmega328P) (0, replicate (MAX_CAPTURE_SIZE ATmega328P) 0) (stake 65537 (sconst 0))") auto
  from acquireSlow_power_up[OF cm] obtain s' where
    s': "acquire ATmega328P (power_up ATmega328P (sconst 0)) = Some (Inr s')"
    by (simp add: acquire_def power_up_def)
  from session_frame[OF s'] show ?thesis using s' by (auto simp: power_up_def)
qed

subsection \<open>Arming twice\<close>

lemma SAMPLOOP_stream:
  "SAMPLOOP cap rc st dc = Inr r \<Longrightarrow> \<exists>k. fst r = sdrop k (fst st)"
proof (induction cap rc st dc arbitrary: r rule: SAMPLOOP.induct)
  case (1 cap rc pin ptr mem dc)
  have nov: "\<not> cap \<le> unat ptr" using "1.prems" by (subst (asm) SAMPLOOP.simps) (auto split: if_splits)
  show ?case
  proof (cases "dc - 1 = 0")
    case True
    then have "r = (stl pin, store_wrap rc (shd pin) (ptr, mem))"
      using "1.prems" nov by (subst (asm) SAMPLOOP.simps) simp
    then have "fst r = sdrop (Suc 0) (fst (pin, ptr, mem))" by simp
    then show ?thesis by blast
  next
    case False
    then have "SAMPLOOP cap rc (stl pin, store_wrap rc (shd pin) (ptr, mem)) (dc - 1) = Inr r"
      using "1.prems" nov by (subst (asm) SAMPLOOP.simps) simp
    from "1.IH"[OF nov False this] obtain k where "fst r = sdrop k (stl pin)" by auto
    then have "fst r = sdrop (Suc k) (fst (pin, ptr, mem))" by simp
    then show ?thesis by blast
  qed
qed

lemma SAMPLOOP2_stream:
  "SAMPLOOP2 cap st dc = Inr r \<Longrightarrow> \<exists>k. fst r = sdrop k (fst st)"
proof (induction cap st dc arbitrary: r rule: SAMPLOOP2.induct)
  case (1 cap pin ptr mem dc)
  have nov: "\<not> cap \<le> unat ptr" using "1.prems" by (subst (asm) SAMPLOOP2.simps) (auto split: if_splits)
  show ?case
  proof (cases "dc - 1 = 0")
    case True
    then have "r = (stl pin, ptr + 1, mem[unat ptr := shd pin])"
      using "1.prems" nov by (subst (asm) SAMPLOOP2.simps) simp
    then have "fst r = sdrop (Suc 0) (fst (pin, ptr, mem))" by simp
    then show ?thesis by blast
  next
    case False
    then have "SAMPLOOP2 cap (stl pin, ptr + 1, mem[unat ptr := shd pin]) (dc - 1) = Inr r"
      using "1.prems" nov by (subst (asm) SAMPLOOP2.simps) simp
    from "1.IH"[OF nov False this] obtain k where "fst r = sdrop k (stl pin)" by auto
    then have "fst r = sdrop (Suc k) (fst (pin, ptr, mem))" by simp
    then show ?thesis by blast
  qed
qed

lemma trigger_wait5_stream:
  assumes "trigger_wait5 tv tm pin = Some pin'"
  shows "\<exists>k. pin' = sdrop k pin"
proof (rule trigger_wait5.raw_induct[where P = "\<lambda>tv tm pin pin'. \<exists>k. pin' = sdrop k pin", OF _ assms])
  fix f :: "byte \<Rightarrow> byte \<Rightarrow> byte stream \<Rightarrow> byte stream option"
  fix tv tm pin pin'
  assume IH: "\<And>tv tm pin pin'. f tv tm pin = Some pin' \<Longrightarrow> \<exists>k. pin' = sdrop k pin"
  assume body: "(if (shd pin XOR tv) AND tm \<noteq> 0 then f tv tm (stl pin) else Some pin) = Some pin'"
  show "\<exists>k. pin' = sdrop k pin"
  proof (cases "(shd pin XOR tv) AND tm \<noteq> 0")
    case True
    then have "f tv tm (stl pin) = Some pin'" using body by simp
    from IH[OF this] obtain k where "pin' = sdrop k (stl pin)" by auto
    then have "pin' = sdrop (Suc k) pin" by simp
    then show ?thesis by blast
  next
    case False
    then have "pin' = sdrop 0 pin" using body by simp
    then show ?thesis by blast
  qed
qed

lemma acquireSlow_again:
  assumes run: "acquireSlow m s = Some (Inr s1)" and const: "CHANPIN s = sconst x"
  shows "\<exists>out. tx s1 = tx s @ out \<and>
     acquireSlow m (s1\<lparr>rx := r, logicdata := logicdata s\<rparr>)
       = Some (Inr (s1\<lparr>rx := r, tx := tx s1 @ out\<rparr>))"
proof -
  define cap where "cap = MAX_CAPTURE_SIZE m"
  obtain st where T: "TRIGLOOP cap (readCount s) (trigger_values s) (trigger s)
      (sconst x, 0, logicdata s) = Some (Inr st)"
    using run const
    by (auto simp: acquireSlow_def Let_def cap_def split: option.splits sum.splits)
  obtain pin ptr mem where S: "SAMPLOOP cap (readCount s) st (delayCount s) = Inr (pin, ptr, mem)"
    using run const T
    by (auto simp: acquireSlow_def Let_def cap_def split: sum.splits prod.splits)
  obtain li out where D: "dump_reversed cap mem (readCount s) 0 (ptr - 1) [] = Inr (li, out)"
    using run const T S
    by (auto simp: acquireSlow_def Let_def cap_def split: sum.splits prod.splits)
  have s1: "s1 = s\<lparr>divider := (if divider s < 99 then 99 else divider s), logicIndex := 0,
       CHANPIN := pin, logicdata := mem, logicIndex := li, tx := tx s @ out\<rparr>"
    using run const T S D by (simp add: acquireSlow_def Let_def cap_def)
  from TRIGLOOP_returns[OF T] obtain k where "fst st = sdrop (Suc k) (sconst x)" by auto
  then have "fst st = sconst x" by (simp only: sdrop_sconst)
  moreover from SAMPLOOP_stream[OF S] obtain j where "pin = sdrop j (fst st)" by auto
  ultimately have pin: "pin = sconst x" by (simp only: sdrop_sconst)
  have "acquireSlow m (s1\<lparr>rx := r, logicdata := logicdata s\<rparr>)
       = Some (Inr (s1\<lparr>rx := r, tx := tx s1 @ out\<rparr>))"
    unfolding acquireSlow_def Let_def
    using T S D by (simp add: s1 pin cap_def)
  moreover have "tx s1 = tx s @ out" by (simp add: s1)
  ultimately show ?thesis by blast
qed

lemma acquire2MHz_again:
  assumes run: "acquire2MHz m s = Some (Inr s1)" and const: "CHANPIN s = sconst x"
  shows "\<exists>out. tx s1 = tx s @ out \<and>
     acquire2MHz m (s1\<lparr>rx := r, logicdata := logicdata s\<rparr>)
       = Some (Inr (s1\<lparr>rx := r, tx := tx s1 @ out\<rparr>))"
proof -
  define cap where "cap = MAX_CAPTURE_SIZE m"
  obtain pin0 mem0 where T: "TRIGLOOP2 (trigger_values s) (trigger s) (sconst x, logicdata s)
      = Some (pin0, mem0)"
    using run const
    by (auto simp: acquire2MHz_def Let_def split: option.splits)
  obtain pin ptr mem where S: "SAMPLOOP2 cap (pin0, 1, mem0) (readCount s - 1) = Inr (pin, ptr, mem)"
    using run const T
    by (auto simp: acquire2MHz_def Let_def cap_def split: sum.splits prod.splits)
  obtain out where D: "dump2MHz cap mem (readCount s - 1) [] = Inr out"
    using run const T S
    by (auto simp: acquire2MHz_def Let_def cap_def split: sum.splits prod.splits)
  have s1: "s1 = s\<lparr>delayCount := readCount s - 1,
       CHANPIN := pin, logicdata := mem, tx := tx s @ out\<rparr>"
    using run const T S D by (simp add: acquire2MHz_def Let_def cap_def)
  from TRIGLOOP2_returns[OF T] obtain k where "pin0 = sdrop (Suc k) (sconst x)" by auto
  then have "pin0 = sconst x" by (simp only: sdrop_sconst)
  moreover from SAMPLOOP2_stream[OF S] obtain j where "pin = sdrop j pin0" by auto
  ultimately have pin: "pin = sconst x" by (simp only: sdrop_sconst)
  have "acquire2MHz m (s1\<lparr>rx := r, logicdata := logicdata s\<rparr>)
       = Some (Inr (s1\<lparr>rx := r, tx := tx s1 @ out\<rparr>))"
    unfolding acquire2MHz_def Let_def
    using T S D by (simp add: s1 pin cap_def)
  moreover have "tx s1 = tx s @ out" by (simp add: s1)
  ultimately show ?thesis by blast
qed

lemma acquire5MHz_again:
  assumes run: "acquire5MHz m s = Some (Inr s1)" and const: "CHANPIN s = sconst x"
  shows "\<exists>out. tx s1 = tx s @ out \<and>
     acquire5MHz m (s1\<lparr>rx := r, logicdata := logicdata s\<rparr>)
       = Some (Inr (s1\<lparr>rx := r, tx := tx s1 @ out\<rparr>))"
proof -
  obtain pin where T: "trigger_wait5 (trigger_values s) (trigger s) (sconst x) = Some pin"
    using run const by (auto simp: acquire5MHz_def split: option.splits)
  from trigger_wait5_stream[OF T] obtain k where "pin = sdrop k (sconst x)" by auto
  then have pin: "pin = sconst x" by (simp only: sdrop_sconst)
  define further where "further = nat (sint (readCount s) - 1)"
  define mem where "mem = take 1 ((logicdata s)[0 := x]) @ stake further (sconst x)
      @ drop (1 + further) ((logicdata s)[0 := x])"
  define out where "out = rev (take (nat (sint (readCount s))) mem)"
  have s1: "s1 = s\<lparr>CHANPIN := sconst x, logicdata := mem, tx := tx s @ out\<rparr>"
    using run const T
    by (simp add: acquire5MHz_def Let_def pin sdrop_sconst mem_def out_def further_def)
  have "acquire5MHz m (s1\<lparr>rx := r, logicdata := logicdata s\<rparr>)
       = Some (Inr (s1\<lparr>rx := r, tx := tx s1 @ out\<rparr>))"
    unfolding acquire5MHz_def
    using T by (simp add: s1 pin Let_def sdrop_sconst mem_def out_def further_def)
  moreover have "tx s1 = tx s @ out" by (simp add: s1)
  ultimately show ?thesis by blast
qed

lemma acquire_again:
  assumes run: "acquire m s = Some (Inr s1)" and const: "CHANPIN s = sconst x"
  shows "\<exists>out. tx s1 = tx s @ out \<and>
     acquire m (s1\<lparr>rx := r, logicdata := logicdata s\<rparr>)
       = Some (Inr (s1\<lparr>rx := r, tx := tx s1 @ out\<rparr>))"
proof (cases "divider s = 19")
  case True
  then have a: "acquire5MHz m s = Some (Inr s1)" using run by (simp add: acquire_def)
  then have "divider s1 = 19" using True acquire5MHz_frame[OF a] by simp
  then show ?thesis using acquire5MHz_again[OF a const, of r] by (simp add: acquire_def)
next
  case n19: False
  show ?thesis
  proof (cases "divider s = 49")
    case True
    then have a: "acquire2MHz m s = Some (Inr s1)" using run by (simp add: acquire_def)
    then have "divider s1 = 49" using True acquire2MHz_frame[OF a] by simp
    then show ?thesis using acquire2MHz_again[OF a const, of r] by (simp add: acquire_def)
  next
    case False
    then have a: "acquireSlow m s = Some (Inr s1)" using run n19 by (simp add: acquire_def)
    have "divider s1 = (if divider s < 99 then 99 else divider s)"
      using acquireSlow_frame[OF a] by simp
    then have "divider s1 \<noteq> 19 \<and> divider s1 \<noteq> 49" using False n19 by (auto split: if_splits)
    then show ?thesis using acquireSlow_again[OF a const, of r] by (simp add: acquire_def)
  qed
qed

lemma acquire_rx:
  "acquire m (s\<lparr>rx := r\<rparr>) = map_option (map_sum id (\<lambda>s'. s'\<lparr>rx := r\<rparr>)) (acquire m s)"
  by (auto simp: acquire_def acquireSlow_def acquire2MHz_def acquire5MHz_def Let_def
      split: option.splits sum.splits prod.splits)

lemma loops_1: "loops m 1 s = (case loop m s of None \<Rightarrow> None | Some (Inl e) \<Rightarrow> Some (Inl e)
      | Some (Inr s') \<Rightarrow> Some (Inr s'))"
  by (simp split: option.splits sum.splits)

text \<open>
  C9. With a constant input signal, if an arm command returns, then a second arm command
  right after it returns too and sends the same bytes as the first: the two commands
  together append the output of the first one twice.
\<close>

theorem arm_twice_same_output:
  assumes "CHANPIN s = sconst x" and "loops m 1 (s\<lparr>rx := [0x01]\<rparr>) = Some (Inr s1)"
  shows "\<exists>out s2. tx s1 = tx s @ out
     \<and> loops m 2 (s\<lparr>rx := [0x01, 0x01]\<rparr>) = Some (Inr s2)
     \<and> tx s2 = tx s @ out @ out"
proof -
  define Z where "Z = replicate (MAX_CAPTURE_SIZE m) (0 :: byte)"
  define s0 where "s0 = s\<lparr>rx := [], logicdata := Z\<rparr>"
  have "loop m (s\<lparr>rx := [0x01]\<rparr>) = Some (Inr s1)"
    using assms(2) by (simp add: loops_1 split: option.splits sum.splits)
  then have run: "acquire m s0 = Some (Inr s1)"
    by (simp add: loop_arm s0_def Z_def)
  have const: "CHANPIN s0 = sconst x" using assms(1) by (simp add: s0_def)
  from acquire_again[OF run const, of "[]"] obtain out where
    out: "tx s1 = tx s0 @ out"
    and again: "acquire m (s1\<lparr>rx := [], logicdata := logicdata s0\<rparr>)
       = Some (Inr (s1\<lparr>rx := [], tx := tx s1 @ out\<rparr>))"
    by blast
  have "s\<lparr>rx := [0x01], logicdata := Z\<rparr> = s0\<lparr>rx := [0x01]\<rparr>"
    by (simp add: s0_def)
  then have "loop m (s\<lparr>rx := [0x01, 0x01]\<rparr>) = acquire m (s0\<lparr>rx := [0x01]\<rparr>)"
    by (simp only: loop_arm Z_def)
  then have first: "loop m (s\<lparr>rx := [0x01, 0x01]\<rparr>) = Some (Inr (s1\<lparr>rx := [0x01]\<rparr>))"
    using run by (simp add: acquire_rx)
  have "loop m (s1\<lparr>rx := [0x01]\<rparr>) = acquire m (s1\<lparr>rx := [], logicdata := Z\<rparr>)"
    by (simp add: loop_arm Z_def)
  then have second: "loop m (s1\<lparr>rx := [0x01]\<rparr>) = Some (Inr (s1\<lparr>rx := [], tx := tx s1 @ out\<rparr>))"
    using again by (simp add: s0_def)
  have "loops m 2 (s\<lparr>rx := [0x01, 0x01]\<rparr>) = Some (Inr (s1\<lparr>rx := [], tx := tx s1 @ out\<rparr>))"
    using first second by (simp add: numeral_2_eq_2)
  moreover have "tx s1 = tx s @ out" using out by (simp add: s0_def)
  ultimately show ?thesis by simp
qed

theorem arm_twice_same_output_witness:
  "CHANPIN (power_up ATmega328P (sconst 5)) = sconst 5
   \<and> (\<exists>s1 out s2.
        loops ATmega328P 1 (power_up ATmega328P (sconst 5)\<lparr>rx := [0x01]\<rparr>) = Some (Inr s1)
      \<and> tx s1 = out
      \<and> loops ATmega328P 2 (power_up ATmega328P (sconst 5)\<lparr>rx := [0x01, 0x01]\<rparr>) = Some (Inr s2)
      \<and> tx s2 = out @ out)"
proof -
  obtain c mem where cm: "circ_store (MAX_CAPTURE_SIZE ATmega328P) (0, replicate (MAX_CAPTURE_SIZE ATmega328P) 0) (stake 65537 (sconst 5)) = (c, mem)"
    by (cases "circ_store (MAX_CAPTURE_SIZE ATmega328P) (0, replicate (MAX_CAPTURE_SIZE ATmega328P) 0) (stake 65537 (sconst 5))") auto
  from acquireSlow_power_up[OF cm] obtain s1 where
    "loop ATmega328P (power_up ATmega328P (sconst 5)\<lparr>rx := [0x01]\<rparr>) = Some (Inr s1)"
    by (simp add: loop_arm_power_up)
  then have s1: "loops ATmega328P 1 (power_up ATmega328P (sconst 5)\<lparr>rx := [0x01]\<rparr>) = Some (Inr s1)"
    by (simp add: loops_1)
  have const: "CHANPIN (power_up ATmega328P (sconst 5)) = sconst 5" by (simp add: power_up_def)
  from arm_twice_same_output[OF const s1] obtain out s2 where
    "tx s1 = tx (power_up ATmega328P (sconst 5)) @ out"
    "loops ATmega328P 2 (power_up ATmega328P (sconst 5)\<lparr>rx := [0x01, 0x01]\<rparr>) = Some (Inr s2)"
    "tx s2 = tx (power_up ATmega328P (sconst 5)) @ out @ out"
    by blast
  then show ?thesis using s1 const by (auto simp: power_up_def)
qed

subsection \<open>The order of the reversed dump\<close>










end
